theory Spec2Isabelle
  imports Main "HOL-Library.Sublist"
begin

section \<open>Data model (netdb.go, lines 14-33)\<close>

text \<open>
  Go strings are byte sequences, so a string is a \<^typ>\<open>char list\<close> (a \<^typ>\<open>char\<close> is one byte).
  Go's \<open>int\<close> is modelled by \<^typ>\<open>int\<close>: the program only stores and compares
  these numbers, it never computes with them, and every number that \<open>init\<close> stores comes
  out of \<open>strconv.ParseInt(_, 10, 32)\<close>, so the conversion \<open>int(num)\<close> never truncates.
\<close>

record Protoent =
  Name :: string
  Aliases :: "string list"
  Number :: int

record Servent =
  Name :: string
  Aliases :: "string list"
  Port :: int
  Protocol :: string

text \<open>The zero values \<open>Protoent{}\<close> and \<open>Servent{}\<close> returned by a failed lookup.\<close>

definition Protoent_zero :: Protoent where
  "Protoent_zero = \<lparr>Protoent.Name = [], Protoent.Aliases = [], Number = 0\<rparr>"

definition Servent_zero :: Servent where
  "Servent_zero = \<lparr>Servent.Name = [], Servent.Aliases = [], Port = 0, Protocol = []\<rparr>"

text \<open>The two package-level variables.\<close>

record netdb =
  Protocols :: "Protoent list"
  Services :: "Servent list"

section \<open>The library functions that \<open>init\<close> calls\<close>

subsection \<open>White space\<close>

text \<open>
  \<open>strings.TrimSpace\<close> and \<open>strings.Fields\<close> use \<open>unicode.IsSpace\<close> on the runes of
  the UTF-8 decoding of the string. The code points with the White_Space property are
  U+0009..U+000D, U+0020, U+0085, U+00A0, U+1680, U+2000..U+200A, U+2028, U+2029,
  U+202F, U+205F and U+3000; the list below holds their UTF-8 encodings. The first byte
  of each encoding is never a continuation byte (0x80..0xBF), so an encoding that
  occurs anywhere in a byte string starts at a rune boundary of Go's decoder (which
  skips continuation bytes only), and is decoded there as that white space rune. A
  byte-level scan that looks for these encodings therefore sees the same white space
  as Go does, also in strings that are not valid UTF-8.
\<close>

definition whiteSpace :: "string list" where
  "whiteSpace =
    [[CHR 0x09], [CHR 0x0A], [CHR 0x0B], [CHR 0x0C], [CHR 0x0D], [CHR 0x20],
     [CHR 0xC2, CHR 0x85], [CHR 0xC2, CHR 0xA0],
     [CHR 0xE1, CHR 0x9A, CHR 0x80],
     [CHR 0xE2, CHR 0x80, CHR 0x80], [CHR 0xE2, CHR 0x80, CHR 0x81],
     [CHR 0xE2, CHR 0x80, CHR 0x82], [CHR 0xE2, CHR 0x80, CHR 0x83],
     [CHR 0xE2, CHR 0x80, CHR 0x84], [CHR 0xE2, CHR 0x80, CHR 0x85],
     [CHR 0xE2, CHR 0x80, CHR 0x86], [CHR 0xE2, CHR 0x80, CHR 0x87],
     [CHR 0xE2, CHR 0x80, CHR 0x88], [CHR 0xE2, CHR 0x80, CHR 0x89],
     [CHR 0xE2, CHR 0x80, CHR 0x8A],
     [CHR 0xE2, CHR 0x80, CHR 0xA8], [CHR 0xE2, CHR 0x80, CHR 0xA9],
     [CHR 0xE2, CHR 0x80, CHR 0xAF],
     [CHR 0xE2, CHR 0x81, CHR 0x9F],
     [CHR 0xE3, CHR 0x80, CHR 0x80]]"

text \<open>
  The number of bytes of the white space rune at the start (at the end) of a string,
  0 when the string does not start (end) with one.
\<close>

definition spaceWidth :: "string \<Rightarrow> nat" where
  "spaceWidth s = (case find (\<lambda>p. prefix p s) whiteSpace of None \<Rightarrow> 0 | Some p \<Rightarrow> length p)"

definition spaceWidthLast :: "string \<Rightarrow> nat" where
  "spaceWidthLast s = (case find (\<lambda>p. suffix p s) whiteSpace of None \<Rightarrow> 0 | Some p \<Rightarrow> length p)"

subsection \<open>\<open>strings.TrimSpace\<close>\<close>

fun TrimLeft :: "string \<Rightarrow> string" where
  "TrimLeft [] = []"
| "TrimLeft (c # cs) =
    (if 0 < spaceWidth (c # cs) then TrimLeft (drop (spaceWidth (c # cs) - 1) cs) else c # cs)"

fun TrimRight :: "string \<Rightarrow> string" where
  "TrimRight s =
    (if s \<noteq> [] \<and> 0 < spaceWidthLast s then TrimRight (take (length s - spaceWidthLast s) s)
     else s)"

definition TrimSpace :: "string \<Rightarrow> string" where
  "TrimSpace s = TrimRight (TrimLeft s)"

subsection \<open>\<open>strings.Fields\<close>\<close>

text \<open>
  The scan of \<open>strings.FieldsFunc\<close>: \<open>cur\<close> is the field that is open at the current
  position (\<open>None\<close> for Go's \<open>start < 0\<close>). A white space rune closes the open field,
  any other byte opens or extends it, and the end of the string closes it.
\<close>

fun fieldsScan :: "string \<Rightarrow> string option \<Rightarrow> string list" where
  "fieldsScan [] cur = (case cur of None \<Rightarrow> [] | Some f \<Rightarrow> [f])"
| "fieldsScan (c # cs) cur =
    (if 0 < spaceWidth (c # cs)
     then (case cur of None \<Rightarrow> [] | Some f \<Rightarrow> [f])
            @ fieldsScan (drop (spaceWidth (c # cs) - 1) cs) None
     else fieldsScan cs (Some ((case cur of None \<Rightarrow> [] | Some f \<Rightarrow> f) @ [c])))"

definition Fields :: "string \<Rightarrow> string list" where
  "Fields s = fieldsScan s None"

subsection \<open>\<open>strings.Split\<close> and \<open>strings.SplitN\<close>\<close>

text \<open>
  \<open>init\<close> only splits at the one-byte separators \<open>"\n"\<close>, \<open>"#"\<close> and \<open>"/"\<close>, so the
  separator is a \<^typ>\<open>char\<close>. \<open>SplitN s sep n\<close> returns at most \<open>n\<close> pieces, the last one
  the unsplit rest; \<open>Split\<close> is \<open>SplitN\<close> with \<open>n = Count(s, sep) + 1\<close>, as in Go's
  \<open>genSplit\<close>.
\<close>

fun SplitN :: "string \<Rightarrow> char \<Rightarrow> nat \<Rightarrow> string list" where
  "SplitN s sep 0 = []"
| "SplitN s sep (Suc 0) = [s]"
| "SplitN s sep (Suc (Suc k)) =
    (case dropWhile (\<lambda>c. c \<noteq> sep) s of
       [] \<Rightarrow> [s]
     | _ # rest \<Rightarrow> takeWhile (\<lambda>c. c \<noteq> sep) s # SplitN rest sep (Suc k))"

definition Split :: "string \<Rightarrow> char \<Rightarrow> string list" where
  "Split s sep = SplitN s sep (count_list s sep + 1)"

subsection \<open>\<open>strconv.ParseInt(s, 10, 32)\<close>\<close>

datatype NumError = ErrSyntax | ErrRange

definition isDigit :: "char \<Rightarrow> bool" where
  "isDigit c = (48 \<le> (of_char c :: int) \<and> (of_char c :: int) \<le> 57)"

definition digitVal :: "char \<Rightarrow> int" where
  "digitVal c = of_char c - 48"

definition maxUint64 :: int where
  "maxUint64 = 18446744073709551615"

definition maxVal :: int where
  "maxVal = 4294967295"

text \<open>
  The loop of \<open>strconv.ParseUint\<close> for base 10 and bit size 32, with its 64-bit
  unsigned accumulator \<open>n\<close> (an \<^typ>\<open>int\<close>, the wrap-around of \<open>n + d\<close> written out):
  a byte that is not a decimal digit is a syntax error (an underscore is accepted for
  base 0 only); the value must stay at most \<open>maxVal = 2^32 - 1\<close>.
\<close>

fun parseUintLoop :: "string \<Rightarrow> int \<Rightarrow> NumError + int" where
  "parseUintLoop [] n = Inr n"
| "parseUintLoop (c # cs) n =
    (if \<not> isDigit c then Inl ErrSyntax
     else if maxUint64 div 10 + 1 \<le> n then Inl ErrRange
     else if (n * 10 + digitVal c) mod (maxUint64 + 1) < n * 10
             \<or> maxVal < (n * 10 + digitVal c) mod (maxUint64 + 1)
       then Inl ErrRange
     else parseUintLoop cs ((n * 10 + digitVal c) mod (maxUint64 + 1)))"

definition ParseUint :: "string \<Rightarrow> NumError + int" where
  "ParseUint s = (if s = [] then Inl ErrSyntax else parseUintLoop s 0)"

text \<open>
  \<open>ParseInt\<close> picks off a leading sign, parses the rest unsigned and checks the signed
  range against \<open>cutoff = 2^31\<close>: at most \<open>2^31 - 1\<close>, at least \<open>-2^31\<close>.
\<close>

definition ParseInt :: "string \<Rightarrow> NumError + int" where
  "ParseInt s =
    (case s of
       [] \<Rightarrow> Inl ErrSyntax
     | c # cs \<Rightarrow>
        (case ParseUint (if c = CHR ''+'' \<or> c = CHR ''-'' then cs else s) of
           Inl err \<Rightarrow> Inl err
         | Inr un \<Rightarrow>
            if c \<noteq> CHR ''-'' \<and> 2147483648 \<le> un then Inl ErrRange
            else if c = CHR ''-'' \<and> 2147483648 < un then Inl ErrRange
            else Inr (if c = CHR ''-'' then - un else un)))"

section \<open>\<open>init\<close> (netdb.go, lines 35-93)\<close>

text \<open>
  A panic in \<open>init\<close> ends the program before \<open>main\<close> and before any query can run:
  nothing is left that could read the variables. So a panic is a result of its own,
  with no tables: either the error of \<open>ioutil.ReadFile\<close> or \<open>strconv.ParseInt\<close> that
  \<open>init\<close> passes to \<open>panic\<close>, or the run-time panic of an index out of range.
\<close>

datatype panic = ReadFileError string | ParseError NumError | IndexOutOfRange

text \<open>The file system: the content of a path, \<open>None\<close> where \<open>ioutil.ReadFile\<close> fails.\<close>

type_synonym files = "string \<Rightarrow> string option"

definition ReadFile :: "files \<Rightarrow> string \<Rightarrow> panic + string" where
  "ReadFile fs path = (case fs path of None \<Rightarrow> Inl (ReadFileError path) | Some d \<Rightarrow> Inr d)"

text \<open>
  Lines 43-45 and 69-71: the fields of a line. \<open>split[0]\<close> is an index expression, so
  an empty \<open>split\<close> would panic.
\<close>

definition lineFields :: "string \<Rightarrow> panic + string list" where
  "lineFields line =
    (case SplitN (TrimSpace line) (CHR ''#'') 2 of
       [] \<Rightarrow> Inl IndexOutOfRange
     | s0 # _ \<Rightarrow> Inr (Fields s0))"

text \<open>The body of the first loop (lines 43-59), on the current value of \<open>Protocols\<close>.\<close>

definition protoLine :: "string \<Rightarrow> Protoent list \<Rightarrow> panic + Protoent list" where
  "protoLine line protocols =
    (case lineFields line of
       Inl p \<Rightarrow> Inl p
     | Inr flds \<Rightarrow>
        if length flds < 2 then Inr protocols
        else (case ParseInt (flds ! 1) of
                Inl err \<Rightarrow> Inl (ParseError err)
              | Inr num \<Rightarrow>
                 Inr (protocols @
                   [\<lparr>Protoent.Name = flds ! 0, Protoent.Aliases = drop 2 flds,
                     Number = num\<rparr>])))"

fun protoLoop :: "string list \<Rightarrow> Protoent list \<Rightarrow> panic + Protoent list" where
  "protoLoop [] protocols = Inr protocols"
| "protoLoop (line # rest) protocols =
    (case protoLine line protocols of
       Inl p \<Rightarrow> Inl p
     | Inr protocols' \<Rightarrow> protoLoop rest protocols')"

definition loadProtocols :: "string \<Rightarrow> Protoent list \<Rightarrow> panic + Protoent list" where
  "loadProtocols data protocols = protoLoop (Split data (CHR ''\<newline>'')) protocols"

text \<open>
  The body of the second loop (lines 69-91). \<open>portproto[0]\<close> is parsed before
  \<open>portproto[1]\<close> is read, so a bad port panics with the parse error, and a good port
  with no \<open>/\<close> after it panics with the index out of range.
\<close>

definition servLine :: "string \<Rightarrow> Servent list \<Rightarrow> panic + Servent list" where
  "servLine line services =
    (case lineFields line of
       Inl p \<Rightarrow> Inl p
     | Inr flds \<Rightarrow>
        if length flds < 2 then Inr services
        else (case SplitN (flds ! 1) (CHR ''/'') 2 of
                [] \<Rightarrow> Inl IndexOutOfRange
              | p0 # ps \<Rightarrow>
                 (case ParseInt p0 of
                    Inl err \<Rightarrow> Inl (ParseError err)
                  | Inr port \<Rightarrow>
                     (case ps of
                        [] \<Rightarrow> Inl IndexOutOfRange
                      | proto # _ \<Rightarrow>
                         Inr (services @
                           [\<lparr>Servent.Name = flds ! 0, Servent.Aliases = drop 2 flds,
                             Port = port, Protocol = proto\<rparr>])))))"

fun servLoop :: "string list \<Rightarrow> Servent list \<Rightarrow> panic + Servent list" where
  "servLoop [] services = Inr services"
| "servLoop (line # rest) services =
    (case servLine line services of
       Inl p \<Rightarrow> Inl p
     | Inr services' \<Rightarrow> servLoop rest services')"

definition loadServices :: "string \<Rightarrow> Servent list \<Rightarrow> panic + Servent list" where
  "loadServices data services = servLoop (Split data (CHR ''\<newline>'')) services"

text \<open>
  \<open>init\<close> itself: both variables start as \<open>nil\<close>; it returns the populated variables,
  or panics.
\<close>

definition init :: "files \<Rightarrow> panic + netdb" where
  "init fs =
    (case ReadFile fs ''/etc/protocols'' of
       Inl p \<Rightarrow> Inl p
     | Inr data \<Rightarrow>
        (case loadProtocols data [] of
           Inl p \<Rightarrow> Inl p
         | Inr protocols \<Rightarrow>
            (case ReadFile fs ''/etc/services'' of
               Inl p \<Rightarrow> Inl p
             | Inr data' \<Rightarrow>
                (case loadServices data' [] of
                   Inl p \<Rightarrow> Inl p
                 | Inr services \<Rightarrow> Inr \<lparr>Protocols = protocols, Services = services\<rparr>))))"

section \<open>The queries (netdb.go, lines 95-164)\<close>

definition Equal :: "Protoent \<Rightarrow> Protoent \<Rightarrow> bool" where
  "Equal this other = (Number this = Number other)"

fun GetProtoByNumber :: "Protoent list \<Rightarrow> int \<Rightarrow> Protoent \<times> bool" where
  "GetProtoByNumber [] num = (Protoent_zero, False)"
| "GetProtoByNumber (protoent # rest) num =
    (if Number protoent = num then (protoent, True) else GetProtoByNumber rest num)"

text \<open>The inner loop over the aliases of one record: does it return from the query?\<close>

fun aliasLoop :: "string list \<Rightarrow> string \<Rightarrow> bool" where
  "aliasLoop [] name = False"
| "aliasLoop (alias # rest) name = (if alias = name then True else aliasLoop rest name)"

fun GetProtoByName :: "Protoent list \<Rightarrow> string \<Rightarrow> Protoent \<times> bool" where
  "GetProtoByName [] name = (Protoent_zero, False)"
| "GetProtoByName (protoent # rest) name =
    (if Protoent.Name protoent = name then (protoent, True)
     else if aliasLoop (Protoent.Aliases protoent) name then (protoent, True)
     else GetProtoByName rest name)"

fun GetServByName :: "Servent list \<Rightarrow> string \<Rightarrow> string \<Rightarrow> Servent \<times> bool" where
  "GetServByName [] name protocol = (Servent_zero, False)"
| "GetServByName (servent # rest) name protocol =
    (if Protocol servent \<noteq> protocol \<and> protocol \<noteq> [] then GetServByName rest name protocol
     else if Servent.Name servent = name then (servent, True)
     else if aliasLoop (Servent.Aliases servent) name then (servent, True)
     else GetServByName rest name protocol)"

fun GetServByPort :: "Servent list \<Rightarrow> int \<Rightarrow> string \<Rightarrow> Servent \<times> bool" where
  "GetServByPort [] port protocol = (Servent_zero, False)"
| "GetServByPort (servent # rest) port protocol =
    (if Port servent = port \<and> (Protocol servent = protocol \<or> protocol = [])
     then (servent, True)
     else GetServByPort rest port protocol)"

section \<open>Notions used to state the properties\<close>

text \<open>
  The text \<open>s\<close> with every line feed replaced by carriage return and line feed: the
  same lines, terminated by \<open>"\r\n"\<close> instead of \<open>"\n"\<close>.
\<close>

definition toCRLF :: "string \<Rightarrow> string" where
  "toCRLF s = concat (map (\<lambda>c. if c = CHR ''\<newline>'' then [CHR 0x0D, CHR ''\<newline>''] else [c]) s)"

text \<open>The value of a string of decimal digits.\<close>

definition decimal :: "string \<Rightarrow> int" where
  "decimal ds = foldl (\<lambda>n c. n * 10 + digitVal c) 0 ds"

text \<open>
  \<open>strings.Join\<close>: the elements, with the separator between them. It writes a line
  from its fields.
\<close>

fun Join :: "string list \<Rightarrow> string \<Rightarrow> string" where
  "Join [] sep = []"
| "Join [w] sep = w"
| "Join (w # v # ws) sep = w @ sep @ Join (v # ws) sep"

text \<open>
  A word is what can stand as one field of a line: it is not empty, and it contains
  no \<open>#\<close> and no white space rune (no white space rune starts at any of its
  positions).
\<close>

definition isWord :: "string \<Rightarrow> bool" where
  "isWord w = (w \<noteq> [] \<and> CHR ''#'' \<notin> set w
      \<and> (\<forall>x\<in>set (suffixes w). x \<noteq> [] \<longrightarrow> spaceWidth x = 0))"

text \<open>
  \<open>TrimRight\<close> is one unconditional recursive equation; it is unfolded by hand.
\<close>

declare TrimRight.simps [simp del]

section \<open>Splitting at a separator\<close>

lemma dropWhile_no_sep: "sep \<notin> set s \<Longrightarrow> dropWhile (\<lambda>c. c \<noteq> sep) s = []"
  by (induction s) auto

lemma SplitN_no_sep: "sep \<notin> set s \<Longrightarrow> SplitN s sep (Suc k) = [s]"
  by (cases k) (simp_all add: dropWhile_no_sep)

lemma takeWhile_sep: "sep \<notin> set a \<Longrightarrow> takeWhile (\<lambda>c. c \<noteq> sep) (a @ sep # b) = a"
  by (induction a) auto

lemma dropWhile_sep: "sep \<notin> set a \<Longrightarrow> dropWhile (\<lambda>c. c \<noteq> sep) (a @ sep # b) = sep # b"
  by (induction a) auto

lemma SplitN_sep:
  "sep \<notin> set a \<Longrightarrow> SplitN (a @ sep # b) sep (Suc (Suc k)) = a # SplitN b sep (Suc k)"
  by (simp add: takeWhile_sep dropWhile_sep)

lemma count_list_no_sep: "sep \<notin> set a \<Longrightarrow> count_list (a @ sep # b) sep = Suc (count_list b sep)"
  by (induction a) auto

lemma Split_no_sep: "sep \<notin> set s \<Longrightarrow> Split s sep = [s]"
  by (simp add: Split_def SplitN_no_sep)

lemma Split_sep: "sep \<notin> set a \<Longrightarrow> Split (a @ sep # b) sep = a # Split b sep"
  by (simp add: Split_def count_list_no_sep SplitN_sep del: SplitN.simps)

lemma split_cases:
  "sep \<notin> set s \<or> (\<exists>a b. s = a @ sep # b \<and> sep \<notin> set a)"
  using split_list_first [of sep s] by auto

lemma split_induct [consumes 0, case_names none sep]:
  assumes "\<And>s. sep \<notin> set s \<Longrightarrow> P s"
    and "\<And>a b. sep \<notin> set a \<Longrightarrow> P b \<Longrightarrow> P (a @ sep # b)"
  shows "P s"
proof (induction "length s" arbitrary: s rule: less_induct)
  case less
  from split_cases [of sep s] show ?case
  proof
    assume "sep \<notin> set s" then show ?thesis by (rule assms(1))
  next
    assume "\<exists>a b. s = a @ sep # b \<and> sep \<notin> set a"
    then obtain a b where s: "s = a @ sep # b" and a: "sep \<notin> set a" by blast
    then have "length b < length s" by simp
    then have "P b" by (rule less)
    with a s show ?thesis using assms(2) by simp
  qed
qed

lemma SplitN2: "SplitN s sep 2 = (case dropWhile (\<lambda>c. c \<noteq> sep) s of [] \<Rightarrow> [s] | _ # rest \<Rightarrow> [takeWhile (\<lambda>c. c \<noteq> sep) s, rest])"
  by (cases "dropWhile (\<lambda>c. c \<noteq> sep) s")
    (simp_all add: numeral_2_eq_2 del: dropWhile_eq_Nil_conv)

section \<open>White space, trimming and fields\<close>

lemma whiteSpace_nonempty: "p \<in> set whiteSpace \<Longrightarrow> p \<noteq> []"
  by (auto simp: whiteSpace_def)

lemma spaceWidth_cases:
  "(spaceWidth s = 0 \<and> (\<forall>p\<in>set whiteSpace. \<not> prefix p s))
   \<or> (\<exists>p\<in>set whiteSpace. prefix p s \<and> spaceWidth s = length p)"
proof (cases "find (\<lambda>p. prefix p s) whiteSpace")
  case None
  then have "\<forall>p\<in>set whiteSpace. \<not> prefix p s"
    by (simp add: find_None_iff)
  with None show ?thesis unfolding spaceWidth_def by (simp del: find_None_iff)
next
  case (Some p)
  then have "p \<in> set whiteSpace \<and> prefix p s"
    by (auto simp: find_Some_iff)
  with Some show ?thesis by (auto simp: spaceWidth_def)
qed

lemma spaceWidth_le: "spaceWidth s \<le> length s"
  using spaceWidth_cases [of s] by (auto dest: prefix_length_le)

lemma fieldsScan_nonempty:
  "cur \<noteq> Some [] \<Longrightarrow> [] \<notin> set (fieldsScan s cur)"
  by (induction s cur rule: fieldsScan.induct) (auto split: option.splits)

lemma Fields_nonempty: "[] \<notin> set (Fields s)"
  by (simp add: Fields_def fieldsScan_nonempty)

lemma ws_all_hd_tl: "list_all (\<lambda>p. list_all (\<lambda>q. hd p \<notin> set (tl q)) whiteSpace) whiteSpace"
  by code_simp

lemma ws_all_prefix: "list_all (\<lambda>p. list_all (\<lambda>q. prefix p q \<longrightarrow> p = q) whiteSpace) whiteSpace"
  by code_simp

lemma ws_all_hash: "list_all (\<lambda>q. CHR ''#'' \<notin> set q \<and> CHR 0x0D \<notin> set (tl q) \<and> (last q = CHR 0x0D \<longrightarrow> q = [CHR 0x0D]) \<and> q \<noteq> []) whiteSpace"
  by code_simp

lemma whiteSpace_hd_not_tl:
  "p \<in> set whiteSpace \<Longrightarrow> q \<in> set whiteSpace \<Longrightarrow> hd p \<notin> set (tl q)"
  using ws_all_hd_tl unfolding list_all_iff by blast

lemma whiteSpace_prefix_free:
  "p \<in> set whiteSpace \<Longrightarrow> q \<in> set whiteSpace \<Longrightarrow> prefix p q \<Longrightarrow> p = q"
  using ws_all_prefix unfolding list_all_iff by blast

lemma whiteSpace_no_hash: "q \<in> set whiteSpace \<Longrightarrow> CHR ''#'' \<notin> set q"
  using ws_all_hash unfolding list_all_iff by blast

lemma whiteSpace_CR_tl: "q \<in> set whiteSpace \<Longrightarrow> CHR 0x0D \<notin> set (tl q)"
  using ws_all_hash unfolding list_all_iff by blast

lemma whiteSpace_CR: "[CHR 0x0D] \<in> set whiteSpace"
  by (simp add: whiteSpace_def)

lemma whiteSpace_last_CR: "q \<in> set whiteSpace \<Longrightarrow> last q = CHR 0x0D \<Longrightarrow> q = [CHR 0x0D]"
  using ws_all_hash unfolding list_all_iff by blast

lemma spaceWidthLast_cases:
  "(spaceWidthLast s = 0 \<and> (\<forall>p\<in>set whiteSpace. \<not> suffix p s))
   \<or> (\<exists>p\<in>set whiteSpace. suffix p s \<and> spaceWidthLast s = length p)"
proof (cases "find (\<lambda>p. suffix p s) whiteSpace")
  case None
  then have "\<forall>p\<in>set whiteSpace. \<not> suffix p s"
    by (simp add: find_None_iff)
  with None show ?thesis unfolding spaceWidthLast_def by (simp del: find_None_iff)
next
  case (Some p)
  then have "p \<in> set whiteSpace \<and> suffix p s"
    by (auto simp: find_Some_iff)
  with Some show ?thesis by (auto simp: spaceWidthLast_def)
qed

text \<open>A byte that no encoding has after its first byte: appending a string that starts with
  it changes no match in a non-empty string before it.\<close>

lemma prefix_append_lead:
  assumes q: "q \<in> set whiteSpace" and x: "x \<noteq> []"
    and y: "y = [] \<or> (\<forall>q\<in>set whiteSpace. hd y \<notin> set (tl q))"
  shows "prefix q (x @ y) \<longleftrightarrow> prefix q x"
proof
  assume "prefix q x" then show "prefix q (x @ y)" by (simp add: prefix_prefix)
next
  assume "prefix q (x @ y)"
  then have "prefix q x \<or> (\<exists>us. q = x @ us \<and> prefix us y)"
    by (simp add: prefix_append)
  then show "prefix q x"
  proof
    assume "prefix q x" then show ?thesis .
  next
    assume "\<exists>us. q = x @ us \<and> prefix us y"
    then obtain us where us: "q = x @ us" "prefix us y" by blast
    show ?thesis
    proof (cases "us = []")
      case True
      with us show ?thesis by simp
    next
      case False
      with us(2) have ny: "y \<noteq> []" by auto
      from False us(2) ny have "hd us = hd y" by (cases us; cases y) auto
      moreover from False us(1) x have "hd us \<in> set (tl q)" by (cases x; cases us) auto
      ultimately have "hd y \<in> set (tl q)" by simp
      with y q ny show ?thesis by blast
    qed
  qed
qed

lemma spaceWidth_append_lead:
  assumes "x \<noteq> []" and "y = [] \<or> (\<forall>q\<in>set whiteSpace. hd y \<notin> set (tl q))"
  shows "spaceWidth (x @ y) = spaceWidth x"
proof -
  have "find (\<lambda>p. prefix p (x @ y)) whiteSpace = find (\<lambda>p. prefix p x) whiteSpace"
    by (rule find_cong) (simp_all add: prefix_append_lead [OF _ assms])
  then show ?thesis by (simp add: spaceWidth_def)
qed

lemma spaceWidth_whiteSpace:
  assumes "p \<in> set whiteSpace"
  shows "spaceWidth (p @ t) = length p"
proof -
  from assms have "prefix p (p @ t)" by simp
  with assms spaceWidth_cases [of "p @ t"] obtain q
    where q: "q \<in> set whiteSpace" "prefix q (p @ t)" "spaceWidth (p @ t) = length q"
    by blast
  have "prefix q p \<or> prefix p q"
    using q(2) prefix_same_cases [of q "p @ t" p] by auto
  with q(1) assms have "q = p"
    using whiteSpace_prefix_free by blast
  with q show ?thesis by simp
qed

lemma spaceWidth_hash: "spaceWidth (CHR ''#'' # c) = 0"
proof -
  have "\<not> prefix p (CHR ''#'' # c)" if "p \<in> set whiteSpace" for p
  proof -
    from that have "p \<noteq> []" and "CHR ''#'' \<notin> set p"
      by (simp_all add: whiteSpace_nonempty whiteSpace_no_hash)
    then show ?thesis by (cases p) auto
  qed
  then show ?thesis using spaceWidth_cases [of "CHR ''#'' # c"] by auto
qed

lemma hash_lead: "\<forall>q\<in>set whiteSpace. hd (CHR ''#'' # c) \<notin> set (tl q)"
proof
  fix q assume "q \<in> set whiteSpace"
  then have "CHR ''#'' \<notin> set q" by (rule whiteSpace_no_hash)
  then show "hd (CHR ''#'' # c) \<notin> set (tl q)" by (cases q) auto
qed

lemma CR_lead: "\<forall>q\<in>set whiteSpace. hd [CHR 0x0D] \<notin> set (tl q)"
  using whiteSpace_CR_tl by auto

lemma whiteSpace_lead: "p \<in> set whiteSpace \<Longrightarrow> \<forall>q\<in>set whiteSpace. hd (p @ t) \<notin> set (tl q)"
  using whiteSpace_hd_not_tl [of p] whiteSpace_nonempty [of p] by (simp add: hd_append2)

subsection \<open>TrimLeft\<close>

lemma TrimLeft_whiteSpace: "p \<in> set whiteSpace \<Longrightarrow> TrimLeft (p @ t) = TrimLeft t"
  using spaceWidth_whiteSpace [of p t] whiteSpace_nonempty [of p] by (cases p) auto

lemma TrimLeft_concat: "set ws \<subseteq> set whiteSpace \<Longrightarrow> TrimLeft (concat ws @ t) = TrimLeft t"
  by (induction ws) (auto simp: TrimLeft_whiteSpace)

lemma TrimLeft_hash: "TrimLeft (CHR ''#'' # c) = CHR ''#'' # c"
  by (simp add: spaceWidth_hash)

lemma TrimLeft_append_hash: "TrimLeft (x @ CHR ''#'' # c) = TrimLeft x @ CHR ''#'' # c"
proof (induction x rule: TrimLeft.induct)
  case 1
  then show ?case by (simp add: spaceWidth_hash)
next
  case (2 d ds)
  have w: "spaceWidth ((d # ds) @ CHR ''#'' # c) = spaceWidth (d # ds)"
    by (rule spaceWidth_append_lead) (use hash_lead in simp_all)
  have le: "spaceWidth (d # ds) - 1 \<le> length ds"
    using spaceWidth_le [of "d # ds"] by simp
  show ?case
  proof (cases "0 < spaceWidth (d # ds)")
    case True
    with 2 w le show ?thesis by simp
  next
    case False
    with w show ?thesis by simp
  qed
qed

lemma TrimLeft_append_CR:
  "TrimLeft (x @ [CHR 0x0D]) = (if TrimLeft x = [] then [] else TrimLeft x @ [CHR 0x0D])"
proof (induction x rule: TrimLeft.induct)
  case 1
  have "spaceWidth ([CHR 0x0D] @ []) = length [CHR 0x0D]"
    by (rule spaceWidth_whiteSpace) (rule whiteSpace_CR)
  then show ?case by simp
next
  case (2 d ds)
  have w: "spaceWidth ((d # ds) @ [CHR 0x0D]) = spaceWidth (d # ds)"
    by (rule spaceWidth_append_lead) (use CR_lead in simp_all)
  have le: "spaceWidth (d # ds) - 1 \<le> length ds"
    using spaceWidth_le [of "d # ds"] by simp
  show ?case
  proof (cases "0 < spaceWidth (d # ds)")
    case True
    with 2 w le show ?thesis by simp
  next
    case False
    with w show ?thesis by simp
  qed
qed

subsection \<open>TrimRight\<close>

lemma TrimRight_Nil: "TrimRight [] = []"
  by (simp add: TrimRight.simps)

lemma spaceWidthLast_CR: "spaceWidthLast (x @ [CHR 0x0D]) = 1"
proof -
  have "suffix [CHR 0x0D] (x @ [CHR 0x0D])" by simp
  with whiteSpace_CR spaceWidthLast_cases [of "x @ [CHR 0x0D]"] obtain p
    where p: "p \<in> set whiteSpace" "suffix p (x @ [CHR 0x0D])"
      "spaceWidthLast (x @ [CHR 0x0D]) = length p"
    by blast
  from p(1) have "p \<noteq> []" by (rule whiteSpace_nonempty)
  with p(2) have "last p = CHR 0x0D"
    by (auto simp: suffix_def) (metis last_appendR last_snoc)
  with p(1) have "p = [CHR 0x0D]" by (rule whiteSpace_last_CR)
  with p(3) show ?thesis by simp
qed

lemma TrimRight_append_CR: "TrimRight (x @ [CHR 0x0D]) = TrimRight x"
  by (subst TrimRight.simps) (simp add: spaceWidthLast_CR)

lemma TrimSpace_append_CR: "TrimSpace (x @ [CHR 0x0D]) = TrimSpace x"
  by (simp add: TrimSpace_def TrimLeft_append_CR TrimRight_append_CR TrimRight_Nil)

lemma suffix_after_hash:
  assumes "suffix p (z @ CHR ''#'' # c)" and "CHR ''#'' \<notin> set p"
  shows "suffix p c"
proof -
  from assms(1) have "suffix p (CHR ''#'' # c) \<or> (\<exists>xs'. p = xs' @ CHR ''#'' # c)"
    by (auto simp: suffix_append)
  with assms(2) have "suffix p (CHR ''#'' # c)" by auto
  with assms(2) show ?thesis by (auto simp: suffix_Cons)
qed

lemma TrimRight_append_hash:
  "\<exists>c'. TrimRight (z @ CHR ''#'' # c) = z @ CHR ''#'' # c'"
proof (induction "length c" arbitrary: c rule: less_induct)
  case less
  let ?s = "z @ CHR ''#'' # c"
  show ?case
  proof (cases "0 < spaceWidthLast ?s")
    case False
    then have "TrimRight ?s = ?s" by (subst TrimRight.simps) simp
    then show ?thesis by blast
  next
    case True
    with spaceWidthLast_cases [of ?s] obtain p
      where p: "p \<in> set whiteSpace" "suffix p ?s" "spaceWidthLast ?s = length p"
      by auto
    from p(1,2) have sc: "suffix p c"
      using suffix_after_hash whiteSpace_no_hash by blast
    then have le: "length p \<le> length c" by (rule suffix_length_le)
    from p(1) have "p \<noteq> []" by (rule whiteSpace_nonempty)
    with le have lt: "length (take (length c - length p) c) < length c"
      by (cases p) auto
    have "take (length ?s - spaceWidthLast ?s) ?s = z @ CHR ''#'' # take (length c - length p) c"
      using p(3) le by (simp add: Suc_diff_le)
    then have "TrimRight ?s = TrimRight (z @ CHR ''#'' # take (length c - length p) c)"
      using True by (subst TrimRight.simps) simp
    with less [OF lt] show ?thesis by simp
  qed
qed

subsection \<open>Fields\<close>

lemma fieldsScan_append_whiteSpace:
  "p \<in> set whiteSpace \<Longrightarrow> fieldsScan (t @ p) cur = fieldsScan t cur"
proof (induction t cur rule: fieldsScan.induct)
  case (1 cur)
  from 1 have ne: "p \<noteq> []" by (rule whiteSpace_nonempty)
  from 1 have w: "spaceWidth p = length p"
    using spaceWidth_whiteSpace [of p "[]"] by simp
  from ne w show ?case by (cases p) auto
next
  case (2 c cs cur)
  have lead: "\<forall>q\<in>set whiteSpace. hd p \<notin> set (tl q)"
    using whiteSpace_lead [OF 2(3), of "[]"] by simp
  have w: "spaceWidth ((c # cs) @ p) = spaceWidth (c # cs)"
    by (rule spaceWidth_append_lead) (use lead in simp_all)
  have le: "spaceWidth (c # cs) - 1 \<le> length cs"
    using spaceWidth_le [of "c # cs"] by simp
  show ?case
  proof (cases "0 < spaceWidth (c # cs)")
    case True
    with 2 w le show ?thesis by simp
  next
    case False
    with 2 w show ?thesis by simp
  qed
qed

lemma Fields_TrimRight: "Fields (TrimRight z) = Fields z"
proof (induction z rule: TrimRight.induct)
  case (1 s)
  show ?case
  proof (cases "s \<noteq> [] \<and> 0 < spaceWidthLast s")
    case False
    then have "TrimRight s = s" by (subst TrimRight.simps) auto
    then show ?thesis by simp
  next
    case True
    with spaceWidthLast_cases [of s] obtain p
      where p: "p \<in> set whiteSpace" "suffix p s" "spaceWidthLast s = length p"
      by auto
    let ?t = "take (length s - spaceWidthLast s) s"
    from p(2,3) have s: "s = ?t @ p" by (auto simp: suffix_def)
    have "Fields (TrimRight s) = Fields (TrimRight ?t)"
      using True by (subst TrimRight.simps) simp
    also have "\<dots> = Fields ?t" using 1 True by simp
    also have "\<dots> = Fields (?t @ p)"
      using p(1) by (simp add: Fields_def fieldsScan_append_whiteSpace)
    finally show ?thesis using s by simp
  qed
qed

lemma set_TrimRight: "set (TrimRight z) \<subseteq> set z"
proof (induction z rule: TrimRight.induct)
  case (1 s)
  show ?case
  proof (cases "s \<noteq> [] \<and> 0 < spaceWidthLast s")
    case False
    then have "TrimRight s = s" by (subst TrimRight.simps) auto
    then show ?thesis by simp
  next
    case True
    then have "TrimRight s = TrimRight (take (length s - spaceWidthLast s) s)"
      by (subst TrimRight.simps) simp
    with 1 True show ?thesis
      using set_take_subset [of "length s - spaceWidthLast s" s] by auto
  qed
qed

subsection \<open>The fields of a line\<close>

lemma hd_SplitN2: "SplitN s sep 2 = x # xs \<Longrightarrow> x = takeWhile (\<lambda>c. c \<noteq> sep) s"
proof (cases "dropWhile (\<lambda>c. c \<noteq> sep) s")
  case Nil
  assume a: "SplitN s sep 2 = x # xs"
  from Nil have 1: "takeWhile (\<lambda>c. c \<noteq> sep) s = s"
    using takeWhile_dropWhile_id [of "\<lambda>c. c \<noteq> sep" s] by (simp del: dropWhile_eq_Nil_conv)
  from Nil a have "x = s"
    by (simp add: SplitN2 del: dropWhile_eq_Nil_conv)
  then show ?thesis unfolding 1 .
next
  case (Cons d rest)
  assume a: "SplitN s sep 2 = x # xs"
  with Cons show ?thesis by (simp add: SplitN2 del: dropWhile_eq_Nil_conv)
qed

lemma SplitN2_not_Nil: "SplitN s sep 2 \<noteq> []"
  by (simp add: SplitN2 split: list.split)

lemma lineFields_eq:
  "lineFields line = Inr (Fields (takeWhile (\<lambda>c. c \<noteq> CHR ''#'') (TrimSpace line)))"
proof (cases "SplitN (TrimSpace line) (CHR ''#'') 2")
  case Nil
  then show ?thesis by (simp add: SplitN2_not_Nil)
next
  case (Cons x xs)
  then show ?thesis by (simp add: lineFields_def hd_SplitN2 [OF Cons])
qed

lemma takeWhile_TrimRight:
  "Fields (takeWhile (\<lambda>c. c \<noteq> CHR ''#'') (TrimRight z))
    = Fields (takeWhile (\<lambda>c. c \<noteq> CHR ''#'') z)"
proof (cases "CHR ''#'' \<in> set z")
  case True
  then obtain u v where z: "z = u @ CHR ''#'' # v" and u: "CHR ''#'' \<notin> set u"
    using split_list_first [of "CHR ''#''" z] by auto
  from TrimRight_append_hash [of u v] obtain v' where "TrimRight z = u @ CHR ''#'' # v'"
    using z by auto
  with z u show ?thesis by (simp add: takeWhile_sep)
next
  case False
  with set_TrimRight [of z] have "CHR ''#'' \<notin> set (TrimRight z)" by auto
  then have 1: "takeWhile (\<lambda>c. c \<noteq> CHR ''#'') (TrimRight z) = TrimRight z"
    by (auto simp: takeWhile_eq_all_conv)
  from False have 2: "takeWhile (\<lambda>c. c \<noteq> CHR ''#'') z = z"
    by (auto simp: takeWhile_eq_all_conv)
  show ?thesis unfolding 1 2 by (rule Fields_TrimRight)
qed

lemma lineFields_comment: "lineFields (a @ CHR ''#'' # c) = lineFields a"
proof -
  obtain c' where c': "TrimRight (TrimLeft a @ CHR ''#'' # c) = TrimLeft a @ CHR ''#'' # c'"
    using TrimRight_append_hash by blast
  have "takeWhile (\<lambda>c. c \<noteq> CHR ''#'') (TrimSpace (a @ CHR ''#'' # c))
      = takeWhile (\<lambda>c. c \<noteq> CHR ''#'') (TrimLeft a)"
    by (simp add: TrimSpace_def TrimLeft_append_hash c' takeWhile_tail)
  then show ?thesis
    by (simp add: lineFields_eq TrimSpace_def takeWhile_TrimRight)
qed

lemma lineFields_CR: "lineFields (a @ [CHR 0x0D]) = lineFields a"
  by (simp add: lineFields_eq TrimSpace_append_CR)

lemma lineFields_blank: "set ws \<subseteq> set whiteSpace \<Longrightarrow> lineFields (concat ws) = Inr []"
  using TrimLeft_concat [of ws "[]"]
  by (simp add: lineFields_eq TrimSpace_def TrimRight_Nil Fields_def)

lemma lineFields_Nil: "lineFields [] = Inr []"
  using lineFields_blank [of "[]"] by simp

lemma lineFields_comment_only:
  "set ws \<subseteq> set whiteSpace \<Longrightarrow> lineFields (concat ws @ CHR ''#'' # c) = Inr []"
  by (simp add: lineFields_comment lineFields_blank)

lemma lineFields_nonempty: "lineFields line = Inr flds \<Longrightarrow> [] \<notin> set flds"
  using Fields_nonempty by (auto simp: lineFields_eq)

section \<open>\<open>strconv.ParseInt\<close> accepts the signed 32-bit decimal numbers\<close>

lemma digitVal_range: "isDigit c \<Longrightarrow> 0 \<le> digitVal c \<and> digitVal c \<le> 9"
  by (auto simp: isDigit_def digitVal_def)

lemma foldl_digits_mono:
  "\<forall>c\<in>set cs. isDigit c \<Longrightarrow> 0 \<le> n \<Longrightarrow> n \<le> foldl (\<lambda>n c. n * 10 + digitVal c) n cs"
proof (induction cs arbitrary: n)
  case Nil
  then show ?case by simp
next
  case (Cons c cs)
  then have d: "0 \<le> digitVal c" using digitVal_range by simp
  with Cons.prems have "n \<le> n * 10 + digitVal c" by simp
  moreover have "n * 10 + digitVal c \<le> foldl (\<lambda>n c. n * 10 + digitVal c) (n * 10 + digitVal c) cs"
    using Cons d by simp
  ultimately show ?case by simp
qed

lemma parseUintLoop_Inr_iff:
  "0 \<le> n \<Longrightarrow> n \<le> maxVal \<Longrightarrow>
    parseUintLoop cs n = Inr v \<longleftrightarrow>
      (\<forall>c\<in>set cs. isDigit c) \<and> v = foldl (\<lambda>n c. n * 10 + digitVal c) n cs \<and> v \<le> maxVal"
proof (induction cs arbitrary: n)
  case Nil
  then show ?case by auto
next
  case (Cons c cs)
  show ?case
  proof (cases "isDigit c")
    case False
    then show ?thesis by simp
  next
    case True
    then have d: "0 \<le> digitVal c" "digitVal c \<le> 9" using digitVal_range by simp_all
    let ?n1 = "n * 10 + digitVal c"
    from Cons.prems d have n1: "0 \<le> ?n1" "?n1 < maxUint64 + 1"
      by (simp_all add: maxVal_def maxUint64_def)
    then have m: "?n1 mod (maxUint64 + 1) = ?n1" by simp
    from Cons.prems have c: "\<not> maxUint64 div 10 + 1 \<le> n"
      by (simp add: maxVal_def maxUint64_def)
    from d have nw: "\<not> ?n1 < n * 10" by simp
    show ?thesis
    proof (cases "maxVal < ?n1")
      case True
      have "\<not> (\<forall>c\<in>set cs. isDigit c) \<or> maxVal < foldl (\<lambda>n c. n * 10 + digitVal c) ?n1 cs"
        using foldl_digits_mono [of cs ?n1] n1(1) True by fastforce
      with True \<open>isDigit c\<close> c m show ?thesis by auto
    next
      case False
      with \<open>isDigit c\<close> c m nw Cons.IH [of ?n1] n1(1) show ?thesis by simp
    qed
  qed
qed

lemma ParseUint_Inr_iff:
  "ParseUint s = Inr v \<longleftrightarrow> s \<noteq> [] \<and> (\<forall>c\<in>set s. isDigit c) \<and> v = decimal s \<and> v \<le> maxVal"
  using parseUintLoop_Inr_iff [of 0 s v]
  by (simp add: ParseUint_def decimal_def maxVal_def)

lemma ParseUint_cases:
  "(\<exists>e. ParseUint s = Inl e \<and> \<not> (s \<noteq> [] \<and> (\<forall>c\<in>set s. isDigit c) \<and> decimal s \<le> maxVal))
   \<or> (ParseUint s = Inr (decimal s) \<and> s \<noteq> [] \<and> (\<forall>c\<in>set s. isDigit c) \<and> decimal s \<le> maxVal)"
proof (cases "ParseUint s")
  case (Inl e)
  then have "\<not> (s \<noteq> [] \<and> (\<forall>c\<in>set s. isDigit c) \<and> decimal s \<le> maxVal)"
    using ParseUint_Inr_iff [of s "decimal s"] by auto
  with Inl show ?thesis by blast
next
  case (Inr u)
  then show ?thesis using ParseUint_Inr_iff [of s u] by auto
qed

lemma sign_not_digit: "\<not> isDigit (CHR ''+'')" "\<not> isDigit (CHR ''-'')"
  by (simp_all add: isDigit_def)

lemma decimal_nonneg: "\<forall>c\<in>set ds. isDigit c \<Longrightarrow> 0 \<le> decimal ds"
  using foldl_digits_mono [of ds 0] by (simp add: decimal_def)

text \<open>
  \<open>ParseInt\<close> succeeds exactly on an optional sign followed by one or more decimal
  digits whose value is in the signed 32-bit range, and returns that value.
\<close>

lemma ParseInt_Inr_iff:
  "ParseInt s = Inr v \<longleftrightarrow>
    (\<exists>ds. ds \<noteq> [] \<and> (\<forall>c\<in>set ds. isDigit c)
      \<and> ((s = ds \<or> s = CHR ''+'' # ds) \<and> v = decimal ds \<and> v \<le> 2147483647
         \<or> s = CHR ''-'' # ds \<and> v = - decimal ds \<and> decimal ds \<le> 2147483648))"
proof (cases s)
  case Nil
  then show ?thesis by (auto simp: ParseInt_def)
next
  case (Cons c cs)
  consider "c = CHR ''+''" | "c = CHR ''-''" | "c \<noteq> CHR ''+''" "c \<noteq> CHR ''-''" by blast
  then show ?thesis
  proof cases
    case 1
    have "ParseInt s = Inr v \<longleftrightarrow>
        cs \<noteq> [] \<and> (\<forall>c\<in>set cs. isDigit c) \<and> v = decimal cs \<and> v \<le> 2147483647"
      using ParseUint_cases [of cs] 1 Cons
      by (auto simp: ParseInt_def maxVal_def split: if_splits)
    with 1 Cons sign_not_digit show ?thesis by auto
  next
    case 2
    have "ParseInt s = Inr v \<longleftrightarrow>
        cs \<noteq> [] \<and> (\<forall>c\<in>set cs. isDigit c) \<and> v = - decimal cs \<and> decimal cs \<le> 2147483648"
      using ParseUint_cases [of cs] 2 Cons
      by (auto simp: ParseInt_def maxVal_def split: if_splits)
    with 2 Cons sign_not_digit show ?thesis by auto
  next
    case 3
    have "ParseInt s = Inr v \<longleftrightarrow>
        (\<forall>c\<in>set s. isDigit c) \<and> v = decimal s \<and> v \<le> 2147483647"
      using ParseUint_cases [of s] 3 Cons
      by (auto simp: ParseInt_def maxVal_def split: if_splits)
    with 3 Cons show ?thesis by auto
  qed
qed

text \<open>So every number that \<open>init\<close> stores fits Go's \<open>int\<close>, of 32 or of 64 bits.\<close>

lemma ParseInt_range: "ParseInt s = Inr v \<Longrightarrow> - 2147483648 \<le> v \<and> v \<le> 2147483647"
  using decimal_nonneg by (auto simp: ParseInt_Inr_iff) fastforce+

lemma ParseInt_Inl_iff:
  "(\<exists>err. ParseInt s = Inl err) \<longleftrightarrow>
    \<not> (\<exists>ds. ds \<noteq> [] \<and> (\<forall>c\<in>set ds. isDigit c)
      \<and> ((s = ds \<or> s = CHR ''+'' # ds) \<and> decimal ds \<le> 2147483647
         \<or> s = CHR ''-'' # ds \<and> decimal ds \<le> 2147483648))"
proof -
  have "(\<exists>v. ParseInt s = Inr v) \<longleftrightarrow>
    (\<exists>ds. ds \<noteq> [] \<and> (\<forall>c\<in>set ds. isDigit c)
      \<and> ((s = ds \<or> s = CHR ''+'' # ds) \<and> decimal ds \<le> 2147483647
         \<or> s = CHR ''-'' # ds \<and> decimal ds \<le> 2147483648))"
    unfolding ParseInt_Inr_iff by blast
  moreover have "(\<exists>err. ParseInt s = Inl err) \<longleftrightarrow> \<not> (\<exists>v. ParseInt s = Inr v)"
    by (cases "ParseInt s") auto
  ultimately show ?thesis by simp
qed

section \<open>Loading line by line\<close>

subsection \<open>One line\<close>

lemma protoLine_acc:
  "protoLine line P = (case protoLine line [] of Inl p \<Rightarrow> Inl p | Inr rs \<Rightarrow> Inr (P @ rs))"
  by (simp add: protoLine_def split: sum.split)

lemma servLine_acc:
  "servLine line S = (case servLine line [] of Inl p \<Rightarrow> Inl p | Inr rs \<Rightarrow> Inr (S @ rs))"
  by (simp add: servLine_def split: sum.split list.split)

lemma protoLine_skip: "lineFields line = Inr flds \<Longrightarrow> length flds < 2 \<Longrightarrow> protoLine line P = Inr P"
  by (simp add: protoLine_def)

lemma servLine_skip: "lineFields line = Inr flds \<Longrightarrow> length flds < 2 \<Longrightarrow> servLine line S = Inr S"
  by (simp add: servLine_def)

lemma protoLine_bad:
  "lineFields line = Inr flds \<Longrightarrow> 2 \<le> length flds \<Longrightarrow> ParseInt (flds ! 1) = Inl err
    \<Longrightarrow> protoLine line P = Inl (ParseError err)"
  by (simp add: protoLine_def)

lemma protoLine_ok:
  "lineFields line = Inr flds \<Longrightarrow> 2 \<le> length flds \<Longrightarrow> ParseInt (flds ! 1) = Inr num
    \<Longrightarrow> protoLine line P =
      Inr (P @ [\<lparr>Protoent.Name = flds ! 0, Protoent.Aliases = drop 2 flds, Number = num\<rparr>])"
  by (simp add: protoLine_def)

lemma servLine_bad_port:
  assumes "lineFields line = Inr flds" and "2 \<le> length flds"
    and "ParseInt (takeWhile (\<lambda>c. c \<noteq> CHR ''/'') (flds ! 1)) = Inl err"
  shows "servLine line S = Inl (ParseError err)"
proof (cases "SplitN (flds ! 1) (CHR ''/'') 2")
  case Nil
  then show ?thesis by (simp add: SplitN2_not_Nil)
next
  case (Cons p0 ps)
  from hd_SplitN2 [OF Cons] assms Cons show ?thesis by (simp add: servLine_def)
qed

lemma servLine_no_slash:
  assumes "lineFields line = Inr flds" and "2 \<le> length flds"
    and "CHR ''/'' \<notin> set (flds ! 1)"
  shows "servLine line S =
    Inl (case ParseInt (flds ! 1) of Inl err \<Rightarrow> ParseError err | Inr port \<Rightarrow> IndexOutOfRange)"
proof -
  from assms(3) have "SplitN (flds ! 1) (CHR ''/'') 2 = [flds ! 1]"
    by (simp add: numeral_2_eq_2 SplitN_no_sep del: SplitN.simps)
  with assms(1,2) show ?thesis by (simp add: servLine_def split: sum.split)
qed

subsection \<open>The loops\<close>

lemma protoLoop_Inr_iff:
  "protoLoop ls P = Inr T \<longleftrightarrow>
    (\<forall>l\<in>set ls. \<exists>rs. protoLine l [] = Inr rs)
    \<and> T = P @ concat (map (\<lambda>l. projr (protoLine l [])) ls)"
proof (induction ls arbitrary: P)
  case Nil
  then show ?case by auto
next
  case (Cons l ls)
  show ?case
  proof (cases "protoLine l []")
    case (Inl p)
    then have "protoLine l P = Inl p" by (subst protoLine_acc) simp
    with Inl show ?thesis by simp
  next
    case (Inr rs)
    then have "protoLine l P = Inr (P @ rs)" by (subst protoLine_acc) simp
    with Inr Cons [of "P @ rs"] show ?thesis by simp
  qed
qed

lemma servLoop_Inr_iff:
  "servLoop ls S = Inr T \<longleftrightarrow>
    (\<forall>l\<in>set ls. \<exists>rs. servLine l [] = Inr rs)
    \<and> T = S @ concat (map (\<lambda>l. projr (servLine l [])) ls)"
proof (induction ls arbitrary: S)
  case Nil
  then show ?case by auto
next
  case (Cons l ls)
  show ?case
  proof (cases "servLine l []")
    case (Inl p)
    then have "servLine l S = Inl p" by (subst servLine_acc) simp
    with Inl show ?thesis by simp
  next
    case (Inr rs)
    then have "servLine l S = Inr (S @ rs)" by (subst servLine_acc) simp
    with Inr Cons [of "S @ rs"] show ?thesis by simp
  qed
qed

lemma protoLoop_Inl: "protoLoop ls P = Inl p \<Longrightarrow> \<exists>l\<in>set ls. protoLine l [] = Inl p"
proof (induction ls arbitrary: P)
  case Nil
  then show ?case by simp
next
  case (Cons l ls)
  show ?case
  proof (cases "protoLine l []")
    case (Inl q)
    then have "protoLine l P = Inl q" by (subst protoLine_acc) simp
    with Cons.prems Inl show ?thesis by simp
  next
    case (Inr rs)
    then have "protoLine l P = Inr (P @ rs)" by (subst protoLine_acc) simp
    with Cons.prems have "protoLoop ls (P @ rs) = Inl p" by simp
    then show ?thesis using Cons.IH by auto
  qed
qed

lemma servLoop_Inl: "servLoop ls S = Inl p \<Longrightarrow> \<exists>l\<in>set ls. servLine l [] = Inl p"
proof (induction ls arbitrary: S)
  case Nil
  then show ?case by simp
next
  case (Cons l ls)
  show ?case
  proof (cases "servLine l []")
    case (Inl q)
    then have "servLine l S = Inl q" by (subst servLine_acc) simp
    with Cons.prems Inl show ?thesis by simp
  next
    case (Inr rs)
    then have "servLine l S = Inr (S @ rs)" by (subst servLine_acc) simp
    with Cons.prems have "servLoop ls (S @ rs) = Inl p" by simp
    then show ?thesis using Cons.IH by auto
  qed
qed

lemma protoLoop_bad:
  assumes "l \<in> set ls" and "protoLine l P0 = Inl q"
  shows "\<exists>p. protoLoop ls P = Inl p"
proof (cases "protoLoop ls P")
  case (Inl p)
  then show ?thesis by blast
next
  case (Inr T)
  with assms(1) obtain rs where "protoLine l [] = Inr rs"
    by (auto simp: protoLoop_Inr_iff)
  then have "protoLine l P0 = Inr (P0 @ rs)" by (subst protoLine_acc) simp
  with assms(2) show ?thesis by simp
qed

lemma servLoop_bad:
  assumes "l \<in> set ls" and "servLine l S0 = Inl q"
  shows "\<exists>p. servLoop ls S = Inl p"
proof (cases "servLoop ls S")
  case (Inl p)
  then show ?thesis by blast
next
  case (Inr T)
  with assms(1) obtain rs where "servLine l [] = Inr rs"
    by (auto simp: servLoop_Inr_iff)
  then have "servLine l S0 = Inr (S0 @ rs)" by (subst servLine_acc) simp
  with assms(2) show ?thesis by simp
qed

subsection \<open>init\<close>

lemma init_protocols_fail:
  "fs ''/etc/protocols'' = Some data \<Longrightarrow> loadProtocols data [] = Inl p \<Longrightarrow> init fs = Inl p"
  by (simp add: init_def ReadFile_def)

lemma init_services_fail:
  "fs ''/etc/services'' = Some data \<Longrightarrow> loadServices data [] = Inl p \<Longrightarrow> \<exists>q. init fs = Inl q"
  by (auto simp: init_def ReadFile_def split: option.split sum.split)

lemma init_Inr:
  "init fs = Inr db \<Longrightarrow>
    \<exists>data data'. fs ''/etc/protocols'' = Some data \<and> fs ''/etc/services'' = Some data'
      \<and> loadProtocols data [] = Inr (Protocols db) \<and> loadServices data' [] = Inr (Services db)"
  by (auto simp: init_def ReadFile_def split: option.splits sum.splits)

section \<open>The queries return the first match\<close>

lemma aliasLoop_set: "aliasLoop as name = (name \<in> set as)"
  by (induction as) auto

lemma GetProtoByNumber_find:
  "GetProtoByNumber protocols n =
    (case find (\<lambda>r. Number r = n) protocols of
       Some r \<Rightarrow> (r, True)
     | None \<Rightarrow> (Protoent_zero, False))"
  by (induction protocols) auto

lemma find_first:
  "xs = pre @ r # post \<Longrightarrow> \<forall>q\<in>set pre. \<not> P q \<Longrightarrow> P r \<Longrightarrow> find P xs = Some r"
  by (induction pre arbitrary: xs) auto

text \<open>
  C4. \<open>GetProtoByNumber\<close> returns the first record of the table, in table order, whose
  number is \<open>n\<close>, with \<open>true\<close>: the record \<open>r\<close> before which no record has the number
  \<open>n\<close>, whatever follows it (so of two records with the same number the earlier one
  is returned). When no record has the number \<open>n\<close> it returns the zero-value record
  with \<open>false\<close>.
\<close>

theorem GetProtoByNumber_first_match:
  "(protocols = pre @ r # post \<and> (\<forall>q\<in>set pre. Number q \<noteq> n) \<and> Number r = n
      \<longrightarrow> GetProtoByNumber protocols n = (r, True))
   \<and> ((\<forall>q\<in>set protocols. Number q \<noteq> n)
      \<longrightarrow> GetProtoByNumber protocols n = (Protoent_zero, False))"
proof (intro conjI impI)
  assume h: "protocols = pre @ r # post \<and> (\<forall>q\<in>set pre. Number q \<noteq> n) \<and> Number r = n"
  then have "find (\<lambda>r. Number r = n) protocols = Some r"
    using find_first [of protocols pre r post "\<lambda>r. Number r = n"] by simp
  then show "GetProtoByNumber protocols n = (r, True)"
    by (simp add: GetProtoByNumber_find)
next
  assume "\<forall>q\<in>set protocols. Number q \<noteq> n"
  then have "find (\<lambda>r. Number r = n) protocols = None"
    by (simp add: find_None_iff)
  then show "GetProtoByNumber protocols n = (Protoent_zero, False)"
    by (simp add: GetProtoByNumber_find)
qed

text \<open>
  A table with the number 6 twice: the earlier record is returned, and the number 99
  is not found.
\<close>

theorem GetProtoByNumber_first_match_witness:
  "GetProtoByNumber
     [\<lparr>Protoent.Name = ''udp'', Protoent.Aliases = [''UDP''], Number = 17\<rparr>,
      \<lparr>Protoent.Name = ''tcp'', Protoent.Aliases = [''TCP''], Number = 6\<rparr>,
      \<lparr>Protoent.Name = ''dup'', Protoent.Aliases = [], Number = 6\<rparr>] 6
     = (\<lparr>Protoent.Name = ''tcp'', Protoent.Aliases = [''TCP''], Number = 6\<rparr>, True)
   \<and> GetProtoByNumber
     [\<lparr>Protoent.Name = ''udp'', Protoent.Aliases = [''UDP''], Number = 17\<rparr>,
      \<lparr>Protoent.Name = ''tcp'', Protoent.Aliases = [''TCP''], Number = 6\<rparr>,
      \<lparr>Protoent.Name = ''dup'', Protoent.Aliases = [], Number = 6\<rparr>] 99
     = (Protoent_zero, False)"
  using
    GetProtoByNumber_first_match
      [of "[\<lparr>Protoent.Name = ''udp'', Protoent.Aliases = [''UDP''], Number = 17\<rparr>,
            \<lparr>Protoent.Name = ''tcp'', Protoent.Aliases = [''TCP''], Number = 6\<rparr>,
            \<lparr>Protoent.Name = ''dup'', Protoent.Aliases = [], Number = 6\<rparr>]"
          "[\<lparr>Protoent.Name = ''udp'', Protoent.Aliases = [''UDP''], Number = 17\<rparr>]"
          "\<lparr>Protoent.Name = ''tcp'', Protoent.Aliases = [''TCP''], Number = 6\<rparr>"
          "[\<lparr>Protoent.Name = ''dup'', Protoent.Aliases = [], Number = 6\<rparr>]" 6]
    GetProtoByNumber_first_match
      [of "[\<lparr>Protoent.Name = ''udp'', Protoent.Aliases = [''UDP''], Number = 17\<rparr>,
            \<lparr>Protoent.Name = ''tcp'', Protoent.Aliases = [''TCP''], Number = 6\<rparr>,
            \<lparr>Protoent.Name = ''dup'', Protoent.Aliases = [], Number = 6\<rparr>]"
          "[]" Protoent_zero "[]" 99]
  by simp

lemma GetProtoByName_find:
  "GetProtoByName protocols s =
    (case find (\<lambda>r. Protoent.Name r = s \<or> s \<in> set (Protoent.Aliases r)) protocols of
       Some r \<Rightarrow> (r, True)
     | None \<Rightarrow> (Protoent_zero, False))"
  by (induction protocols) (auto simp: aliasLoop_set)

lemma GetServByName_find:
  "GetServByName services s protocol =
    (case find (\<lambda>r. (protocol = [] \<or> Protocol r = protocol)
                    \<and> (Servent.Name r = s \<or> s \<in> set (Servent.Aliases r))) services of
       Some r \<Rightarrow> (r, True)
     | None \<Rightarrow> (Servent_zero, False))"
  by (induction services) (auto simp: aliasLoop_set)

lemma GetServByPort_find:
  "GetServByPort services port protocol =
    (case find (\<lambda>r. Port r = port \<and> (protocol = [] \<or> Protocol r = protocol)) services of
       Some r \<Rightarrow> (r, True)
     | None \<Rightarrow> (Servent_zero, False))"
  by (induction services) auto

lemma GetServByName_filter:
  "GetServByName services s protocol =
    GetServByName (filter (\<lambda>r. Protocol r = protocol \<or> protocol = []) services) s []"
  by (induction services) auto

lemma find_filter: "find Q (filter P xs) = find (\<lambda>x. P x \<and> Q x) xs"
  by (induction xs) auto

text \<open>
  C5. \<open>GetProtoByName\<close> returns the first record, in table order, whose name is \<open>s\<close>
  or whose aliases contain \<open>s\<close> (both are checked on one record before the next
  record is looked at), comparing byte strings for equality; and not found (the zero
  record and \<open>false\<close>) when no record matches. \<open>GetServByName\<close> is this same
  lookup on the records that pass its protocol filter (the records whose protocol is
  the argument; all records when the argument is empty), in their table order: a
  record that does not pass is skipped before its name is looked at. In particular,
  when \<open>s\<close> is the name of a record \<open>B\<close> and an alias of a later record \<open>A\<close>, \<open>B\<close>
  passes the filter, and no record before \<open>B\<close> that passes the filter matches, the
  lookup returns \<open>B\<close>.
\<close>

theorem GetByName_first_match:
  "GetProtoByName protocols s =
     (case find (\<lambda>r. Protoent.Name r = s \<or> s \<in> set (Protoent.Aliases r)) protocols of
        Some r \<Rightarrow> (r, True)
      | None \<Rightarrow> (Protoent_zero, False))
   \<and> GetServByName services s protocol =
     (case find (\<lambda>r. Servent.Name r = s \<or> s \<in> set (Servent.Aliases r))
             (filter (\<lambda>r. protocol = [] \<or> Protocol r = protocol) services) of
        Some r \<Rightarrow> (r, True)
      | None \<Rightarrow> (Servent_zero, False))
   \<and> GetServByName services s [] =
     (case find (\<lambda>r. Servent.Name r = s \<or> s \<in> set (Servent.Aliases r)) services of
        Some r \<Rightarrow> (r, True)
      | None \<Rightarrow> (Servent_zero, False))
   \<and> GetServByName services s protocol =
     GetServByName (filter (\<lambda>r. Protocol r = protocol \<or> protocol = []) services) s []
   \<and> (protocols = pre @ B # post \<and> A \<in> set post
        \<and> Protoent.Name B = s \<and> s \<in> set (Protoent.Aliases A)
        \<and> (\<forall>r\<in>set pre. Protoent.Name r \<noteq> s \<and> s \<notin> set (Protoent.Aliases r))
      \<longrightarrow> GetProtoByName protocols s = (B, True))
   \<and> (services = pre' @ B' # post' \<and> A' \<in> set post'
        \<and> Servent.Name B' = s \<and> s \<in> set (Servent.Aliases A')
        \<and> (protocol = [] \<or> Protocol B' = protocol)
        \<and> (\<forall>r\<in>set pre'. (protocol = [] \<or> Protocol r = protocol)
              \<longrightarrow> Servent.Name r \<noteq> s \<and> s \<notin> set (Servent.Aliases r))
      \<longrightarrow> GetServByName services s protocol = (B', True))
   \<and> ((\<forall>r\<in>set protocols. Protoent.Name r \<noteq> s \<and> s \<notin> set (Protoent.Aliases r))
      \<longrightarrow> GetProtoByName protocols s = (Protoent_zero, False))
   \<and> ((\<forall>r\<in>set services. (protocol = [] \<or> Protocol r = protocol)
              \<longrightarrow> Servent.Name r \<noteq> s \<and> s \<notin> set (Servent.Aliases r))
      \<longrightarrow> GetServByName services s protocol = (Servent_zero, False))"
proof (intro conjI impI)
  show "GetProtoByName protocols s =
     (case find (\<lambda>r. Protoent.Name r = s \<or> s \<in> set (Protoent.Aliases r)) protocols of
        Some r \<Rightarrow> (r, True)
      | None \<Rightarrow> (Protoent_zero, False))"
    by (rule GetProtoByName_find)
next
  show "GetServByName services s protocol =
     (case find (\<lambda>r. Servent.Name r = s \<or> s \<in> set (Servent.Aliases r))
             (filter (\<lambda>r. protocol = [] \<or> Protocol r = protocol) services) of
        Some r \<Rightarrow> (r, True)
      | None \<Rightarrow> (Servent_zero, False))"
    unfolding find_filter by (rule GetServByName_find)
next
  show "GetServByName services s [] =
     (case find (\<lambda>r. Servent.Name r = s \<or> s \<in> set (Servent.Aliases r)) services of
        Some r \<Rightarrow> (r, True)
      | None \<Rightarrow> (Servent_zero, False))"
    by (simp add: GetServByName_find)
next
  show "GetServByName services s protocol =
     GetServByName (filter (\<lambda>r. Protocol r = protocol \<or> protocol = []) services) s []"
    by (rule GetServByName_filter)
next
  assume h: "protocols = pre @ B # post \<and> A \<in> set post
        \<and> Protoent.Name B = s \<and> s \<in> set (Protoent.Aliases A)
        \<and> (\<forall>r\<in>set pre. Protoent.Name r \<noteq> s \<and> s \<notin> set (Protoent.Aliases r))"
  then have
    "find (\<lambda>r. Protoent.Name r = s \<or> s \<in> set (Protoent.Aliases r)) protocols = Some B"
    using find_first
      [of protocols pre B post "\<lambda>r. Protoent.Name r = s \<or> s \<in> set (Protoent.Aliases r)"]
    by simp
  then show "GetProtoByName protocols s = (B, True)"
    by (simp add: GetProtoByName_find)
next
  assume h: "services = pre' @ B' # post' \<and> A' \<in> set post'
        \<and> Servent.Name B' = s \<and> s \<in> set (Servent.Aliases A')
        \<and> (protocol = [] \<or> Protocol B' = protocol)
        \<and> (\<forall>r\<in>set pre'. (protocol = [] \<or> Protocol r = protocol)
              \<longrightarrow> Servent.Name r \<noteq> s \<and> s \<notin> set (Servent.Aliases r))"
  then have
    "find (\<lambda>r. (protocol = [] \<or> Protocol r = protocol)
                \<and> (Servent.Name r = s \<or> s \<in> set (Servent.Aliases r))) services = Some B'"
    using find_first
      [of services pre' B' post'
        "\<lambda>r. (protocol = [] \<or> Protocol r = protocol)
                \<and> (Servent.Name r = s \<or> s \<in> set (Servent.Aliases r))"]
    by blast
  then show "GetServByName services s protocol = (B', True)"
    by (simp add: GetServByName_find)
next
  assume "\<forall>r\<in>set protocols. Protoent.Name r \<noteq> s \<and> s \<notin> set (Protoent.Aliases r)"
  then have
    "find (\<lambda>r. Protoent.Name r = s \<or> s \<in> set (Protoent.Aliases r)) protocols = None"
    by (simp add: find_None_iff)
  then show "GetProtoByName protocols s = (Protoent_zero, False)"
    by (simp add: GetProtoByName_find)
next
  assume "\<forall>r\<in>set services. (protocol = [] \<or> Protocol r = protocol)
              \<longrightarrow> Servent.Name r \<noteq> s \<and> s \<notin> set (Servent.Aliases r)"
  then have
    "find (\<lambda>r. (protocol = [] \<or> Protocol r = protocol)
                \<and> (Servent.Name r = s \<or> s \<in> set (Servent.Aliases r))) services = None"
    unfolding find_None_iff by blast
  then show "GetServByName services s protocol = (Servent_zero, False)"
    by (simp add: GetServByName_find)
qed

text \<open>
  \<open>www\<close> is the name of the second record and an alias of the third: the second is
  returned. With the protocol \<open>udp\<close> the first service, an alias of which is \<open>www\<close>
  too, is skipped for its protocol \<open>tcp\<close>. \<open>WWW\<close> matches no record (the comparison
  is case-sensitive).
\<close>

theorem GetByName_first_match_witness:
  "GetProtoByName
     [\<lparr>Protoent.Name = ''ip'', Protoent.Aliases = [''IP''], Number = 0\<rparr>,
      \<lparr>Protoent.Name = ''www'', Protoent.Aliases = [], Number = 1\<rparr>,
      \<lparr>Protoent.Name = ''http'', Protoent.Aliases = [''www''], Number = 2\<rparr>] ''www''
     = (\<lparr>Protoent.Name = ''www'', Protoent.Aliases = [], Number = 1\<rparr>, True)
   \<and> GetServByName
     [\<lparr>Servent.Name = ''ftp'', Servent.Aliases = [''www''], Port = 21, Protocol = ''tcp''\<rparr>,
      \<lparr>Servent.Name = ''www'', Servent.Aliases = [], Port = 8080, Protocol = ''udp''\<rparr>,
      \<lparr>Servent.Name = ''http'', Servent.Aliases = [''www''], Port = 80, Protocol = ''udp''\<rparr>]
     ''www'' ''udp''
     = (\<lparr>Servent.Name = ''www'', Servent.Aliases = [], Port = 8080, Protocol = ''udp''\<rparr>, True)
   \<and> GetProtoByName
     [\<lparr>Protoent.Name = ''ip'', Protoent.Aliases = [''IP''], Number = 0\<rparr>,
      \<lparr>Protoent.Name = ''www'', Protoent.Aliases = [], Number = 1\<rparr>,
      \<lparr>Protoent.Name = ''http'', Protoent.Aliases = [''www''], Number = 2\<rparr>] ''WWW''
     = (Protoent_zero, False)
   \<and> GetServByName
     [\<lparr>Servent.Name = ''ftp'', Servent.Aliases = [''www''], Port = 21, Protocol = ''tcp''\<rparr>,
      \<lparr>Servent.Name = ''www'', Servent.Aliases = [], Port = 8080, Protocol = ''udp''\<rparr>,
      \<lparr>Servent.Name = ''http'', Servent.Aliases = [''www''], Port = 80, Protocol = ''udp''\<rparr>]
     ''WWW'' ''tcp''
     = (Servent_zero, False)"
proof -
  let ?P = "[\<lparr>Protoent.Name = ''ip'', Protoent.Aliases = [''IP''], Number = 0\<rparr>,
      \<lparr>Protoent.Name = ''www'', Protoent.Aliases = [], Number = 1\<rparr>,
      \<lparr>Protoent.Name = ''http'', Protoent.Aliases = [''www''], Number = 2\<rparr>]"
  let ?S = "[\<lparr>Servent.Name = ''ftp'', Servent.Aliases = [''www''], Port = 21, Protocol = ''tcp''\<rparr>,
      \<lparr>Servent.Name = ''www'', Servent.Aliases = [], Port = 8080, Protocol = ''udp''\<rparr>,
      \<lparr>Servent.Name = ''http'', Servent.Aliases = [''www''], Port = 80, Protocol = ''udp''\<rparr>]"
  note found = GetByName_first_match
    [where protocols = ?P and services = ?S and s = "''www''" and protocol = "''udp''"
       and pre = "[\<lparr>Protoent.Name = ''ip'', Protoent.Aliases = [''IP''], Number = 0\<rparr>]"
       and B = "\<lparr>Protoent.Name = ''www'', Protoent.Aliases = [], Number = 1\<rparr>"
       and post = "[\<lparr>Protoent.Name = ''http'', Protoent.Aliases = [''www''], Number = 2\<rparr>]"
       and A = "\<lparr>Protoent.Name = ''http'', Protoent.Aliases = [''www''], Number = 2\<rparr>"
       and pre' = "[\<lparr>Servent.Name = ''ftp'', Servent.Aliases = [''www''], Port = 21,
                      Protocol = ''tcp''\<rparr>]"
       and B' = "\<lparr>Servent.Name = ''www'', Servent.Aliases = [], Port = 8080,
                   Protocol = ''udp''\<rparr>"
       and post' = "[\<lparr>Servent.Name = ''http'', Servent.Aliases = [''www''], Port = 80,
                       Protocol = ''udp''\<rparr>]"
       and A' = "\<lparr>Servent.Name = ''http'', Servent.Aliases = [''www''], Port = 80,
                   Protocol = ''udp''\<rparr>"]
  note missing = GetByName_first_match
    [where protocols = ?P and services = ?S and s = "''WWW''" and protocol = "''tcp''"]
  have 1: "GetProtoByName ?P ''www''
      = (\<lparr>Protoent.Name = ''www'', Protoent.Aliases = [], Number = 1\<rparr>, True)"
    using found by simp
  have 2: "GetServByName ?S ''www'' ''udp''
      = (\<lparr>Servent.Name = ''www'', Servent.Aliases = [], Port = 8080, Protocol = ''udp''\<rparr>, True)"
    using found by simp
  have 3: "GetProtoByName ?P ''WWW'' = (Protoent_zero, False)"
    using missing by simp
  have 4: "GetServByName ?S ''WWW'' ''tcp'' = (Servent_zero, False)"
    using missing by simp
  from 1 2 3 4 show ?thesis by simp
qed

text \<open>
  Without the protocol filter the statement fails on the services. The text
  \<open>www 8080/tcp\<close>, \<open>http 80/udp www\<close> loads to two records. The first record of the
  table whose name or aliases contain \<open>www\<close> is the first one, by its name; the
  lookup of \<open>www\<close> with the protocol \<open>udp\<close> skips it and returns the second, by its
  alias. And on the table of the first record alone the same lookup finds nothing,
  although that record has the name.
\<close>

theorem GetByName_first_match_counterexample:
  "loadServices ''www 8080/tcp\<newline>http 80/udp www\<newline>'' [] =
     Inr [\<lparr>Servent.Name = ''www'', Servent.Aliases = [], Port = 8080, Protocol = ''tcp''\<rparr>,
          \<lparr>Servent.Name = ''http'', Servent.Aliases = [''www''], Port = 80, Protocol = ''udp''\<rparr>]
   \<and> Servent.Name
       \<lparr>Servent.Name = ''www'', Servent.Aliases = [], Port = 8080, Protocol = ''tcp''\<rparr> = ''www''
   \<and> GetServByName
       [\<lparr>Servent.Name = ''www'', Servent.Aliases = [], Port = 8080, Protocol = ''tcp''\<rparr>,
        \<lparr>Servent.Name = ''http'', Servent.Aliases = [''www''], Port = 80, Protocol = ''udp''\<rparr>]
       ''www'' ''udp''
     = (\<lparr>Servent.Name = ''http'', Servent.Aliases = [''www''], Port = 80, Protocol = ''udp''\<rparr>,
        True)
   \<and> GetServByName
       [\<lparr>Servent.Name = ''www'', Servent.Aliases = [], Port = 8080, Protocol = ''tcp''\<rparr>,
        \<lparr>Servent.Name = ''http'', Servent.Aliases = [''www''], Port = 80, Protocol = ''udp''\<rparr>]
       ''www'' ''udp''
     \<noteq> (\<lparr>Servent.Name = ''www'', Servent.Aliases = [], Port = 8080, Protocol = ''tcp''\<rparr>,
        True)
   \<and> GetServByName
       [\<lparr>Servent.Name = ''www'', Servent.Aliases = [], Port = 8080, Protocol = ''tcp''\<rparr>]
       ''www'' ''udp''
     = (Servent_zero, False)"
proof -
  have "loadServices ''www 8080/tcp\<newline>http 80/udp www\<newline>'' [] =
     Inr [\<lparr>Servent.Name = ''www'', Servent.Aliases = [], Port = 8080, Protocol = ''tcp''\<rparr>,
          \<lparr>Servent.Name = ''http'', Servent.Aliases = [''www''], Port = 80, Protocol = ''udp''\<rparr>]"
    by code_simp
  then show ?thesis by simp
qed

text \<open>
  C6. The protocol argument of \<open>GetServByName\<close> and \<open>GetServByPort\<close> is a filter:
  both return the first record, in table order, that matches the name (the port) and
  whose protocol equals the argument, every protocol being accepted when the argument
  is empty.
\<close>

theorem GetServ_protocol_filter:
  "GetServByName services name protocol =
     (case find (\<lambda>r. (protocol = [] \<or> Protocol r = protocol)
                     \<and> (Servent.Name r = name \<or> name \<in> set (Servent.Aliases r))) services of
        Some r \<Rightarrow> (r, True)
      | None \<Rightarrow> (Servent_zero, False))
   \<and> GetServByPort services port protocol =
     (case find (\<lambda>r. Port r = port \<and> (protocol = [] \<or> Protocol r = protocol)) services of
        Some r \<Rightarrow> (r, True)
      | None \<Rightarrow> (Servent_zero, False))
   \<and> GetServByName services name [] =
     (case find (\<lambda>r. Servent.Name r = name \<or> name \<in> set (Servent.Aliases r)) services of
        Some r \<Rightarrow> (r, True)
      | None \<Rightarrow> (Servent_zero, False))
   \<and> GetServByPort services port [] =
     (case find (\<lambda>r. Port r = port) services of
        Some r \<Rightarrow> (r, True)
      | None \<Rightarrow> (Servent_zero, False))"
  by (simp add: GetServByName_find GetServByPort_find)

section \<open>Lines that make the load fail\<close>

text \<open>
  C1. A line of the services file with at least two fields whose second field has
  no \<open>/\<close> makes the load panic: \<open>portproto\<close> has one element, so either
  \<open>ParseInt\<close> fails on the whole field and \<open>init\<close> panics with that error, or it
  succeeds and \<open>portproto[1]\<close> panics with an index out of range. The line is not
  skipped and no record is made of it, whatever \<open>Services\<close> holds at that point;
  so the load of the whole text fails, and so does \<open>init\<close>.
\<close>

theorem service_line_without_slash_fails:
  "line \<in> set (Split data (CHR ''\<newline>'')) \<and> lineFields line = Inr flds \<and> 2 \<le> length flds
     \<and> CHR ''/'' \<notin> set (flds ! 1)
   \<longrightarrow> servLine line services =
         Inl (case ParseInt (flds ! 1) of Inl err \<Rightarrow> ParseError err | Inr port \<Rightarrow> IndexOutOfRange)
       \<and> (\<exists>p. loadServices data services = Inl p)
       \<and> (fs ''/etc/services'' = Some data \<longrightarrow> (\<exists>p. init fs = Inl p))"
proof (intro impI conjI)
  assume h: "line \<in> set (Split data (CHR ''\<newline>'')) \<and> lineFields line = Inr flds
    \<and> 2 \<le> length flds \<and> CHR ''/'' \<notin> set (flds ! 1)"
  then have bad: "\<And>S. servLine line S =
      Inl (case ParseInt (flds ! 1) of Inl err \<Rightarrow> ParseError err | Inr port \<Rightarrow> IndexOutOfRange)"
    by (simp add: servLine_no_slash)
  from bad show "servLine line services =
      Inl (case ParseInt (flds ! 1) of Inl err \<Rightarrow> ParseError err | Inr port \<Rightarrow> IndexOutOfRange)" .
  from h bad [of "[]"] show "\<exists>p. loadServices data services = Inl p"
    unfolding loadServices_def by (blast intro: servLoop_bad)
  assume "fs ''/etc/services'' = Some data"
  moreover from h bad [of "[]"] have "\<exists>p. loadServices data [] = Inl p"
    unfolding loadServices_def by (blast intro: servLoop_bad)
  ultimately show "\<exists>p. init fs = Inl p"
    by (blast dest: init_services_fail)
qed

lemma lineFields_smtp: "lineFields ''smtp 25'' = Inr [''smtp'', ''25'']"
  by code_simp

lemma Split_smtp:
  "Split ''http 80/tcp\<newline>smtp 25\<newline>'' (CHR ''\<newline>'') = [''http 80/tcp'', ''smtp 25'', []]"
  by code_simp

lemma ParseInt_25: "ParseInt ''25'' = Inr 25"
  by code_simp

theorem service_line_without_slash_fails_witness:
  "servLine ''smtp 25'' [] = Inl IndexOutOfRange
   \<and> (\<exists>p. loadServices ''http 80/tcp\<newline>smtp 25\<newline>'' [] = Inl p)
   \<and> (\<exists>p. init (\<lambda>path. Some ''http 80/tcp\<newline>smtp 25\<newline>'') = Inl p)"
  using service_line_without_slash_fails
    [of "''smtp 25''" "''http 80/tcp\<newline>smtp 25\<newline>''" "[''smtp'', ''25'']" "[]"
      "\<lambda>path. Some ''http 80/tcp\<newline>smtp 25\<newline>''"]
  by (simp add: lineFields_smtp Split_smtp ParseInt_25)

text \<open>
  C3. A line with at least two fields whose number does not parse (the second field
  of a protocols line, the part of the second field before the first \<open>/\<close> of a
  services line) makes the load panic with the parse error: the line is not skipped,
  the load of the whole text fails, and so does \<open>init\<close>. A string does not parse
  exactly when it is not an optional sign followed by one or more decimal digits
  with a value from \<open>-2^31\<close> to \<open>2^31 - 1\<close>.
\<close>

theorem malformed_number_fails:
  "(line \<in> set (Split data (CHR ''\<newline>'')) \<and> lineFields line = Inr flds \<and> 2 \<le> length flds
      \<and> ParseInt (flds ! 1) = Inl err
    \<longrightarrow> protoLine line protocols = Inl (ParseError err)
        \<and> (\<exists>p. loadProtocols data protocols = Inl p)
        \<and> (fs ''/etc/protocols'' = Some data \<longrightarrow> (\<exists>p. init fs = Inl p)))
   \<and> (line \<in> set (Split data (CHR ''\<newline>'')) \<and> lineFields line = Inr flds \<and> 2 \<le> length flds
      \<and> ParseInt (takeWhile (\<lambda>c. c \<noteq> CHR ''/'') (flds ! 1)) = Inl err
    \<longrightarrow> servLine line services = Inl (ParseError err)
        \<and> (\<exists>p. loadServices data services = Inl p)
        \<and> (fs ''/etc/services'' = Some data \<longrightarrow> (\<exists>p. init fs = Inl p)))
   \<and> ((\<exists>e. ParseInt s = Inl e) \<longleftrightarrow>
        \<not> (\<exists>ds. ds \<noteq> [] \<and> (\<forall>c\<in>set ds. isDigit c)
          \<and> ((s = ds \<or> s = CHR ''+'' # ds) \<and> decimal ds \<le> 2147483647
             \<or> s = CHR ''-'' # ds \<and> decimal ds \<le> 2147483648)))"
proof (intro conjI impI)
  show "(\<exists>e. ParseInt s = Inl e) \<longleftrightarrow>
        \<not> (\<exists>ds. ds \<noteq> [] \<and> (\<forall>c\<in>set ds. isDigit c)
          \<and> ((s = ds \<or> s = CHR ''+'' # ds) \<and> decimal ds \<le> 2147483647
             \<or> s = CHR ''-'' # ds \<and> decimal ds \<le> 2147483648))"
    by (rule ParseInt_Inl_iff)
next
  assume h: "line \<in> set (Split data (CHR ''\<newline>'')) \<and> lineFields line = Inr flds
      \<and> 2 \<le> length flds \<and> ParseInt (flds ! 1) = Inl err"
  then have bad: "\<And>P. protoLine line P = Inl (ParseError err)"
    by (simp add: protoLine_bad)
  from bad show "protoLine line protocols = Inl (ParseError err)" .
  from h bad [of "[]"] show "\<exists>p. loadProtocols data protocols = Inl p"
    unfolding loadProtocols_def by (blast intro: protoLoop_bad)
  assume "fs ''/etc/protocols'' = Some data"
  moreover from h bad [of "[]"] have "\<exists>p. loadProtocols data [] = Inl p"
    unfolding loadProtocols_def by (blast intro: protoLoop_bad)
  ultimately show "\<exists>p. init fs = Inl p"
    by (blast dest: init_protocols_fail)
next
  assume h: "line \<in> set (Split data (CHR ''\<newline>'')) \<and> lineFields line = Inr flds
      \<and> 2 \<le> length flds \<and> ParseInt (takeWhile (\<lambda>c. c \<noteq> CHR ''/'') (flds ! 1)) = Inl err"
  then have bad: "\<And>S. servLine line S = Inl (ParseError err)"
    by (simp add: servLine_bad_port)
  from bad show "servLine line services = Inl (ParseError err)" .
  from h bad [of "[]"] show "\<exists>p. loadServices data services = Inl p"
    unfolding loadServices_def by (blast intro: servLoop_bad)
  assume "fs ''/etc/services'' = Some data"
  moreover from h bad [of "[]"] have "\<exists>p. loadServices data [] = Inl p"
    unfolding loadServices_def by (blast intro: servLoop_bad)
  ultimately show "\<exists>p. init fs = Inl p"
    by (blast dest: init_services_fail)
qed

lemma lineFields_foo_bar: "lineFields ''foo bar'' = Inr [''foo'', ''bar'']"
  by code_simp

lemma Split_foo_bar:
  "Split ''tcp 6\<newline>foo bar\<newline>udp 17'' (CHR ''\<newline>'') = [''tcp 6'', ''foo bar'', ''udp 17'']"
  by code_simp

lemma ParseInt_bar: "ParseInt ''bar'' = Inl ErrSyntax"
  by code_simp

lemma lineFields_http: "lineFields ''http 99999999999/tcp'' = Inr [''http'', ''99999999999/tcp'']"
  by code_simp

lemma Split_http:
  "Split ''http 99999999999/tcp'' (CHR ''\<newline>'') = [''http 99999999999/tcp'']"
  by code_simp

lemma ParseInt_big: "ParseInt ''99999999999'' = Inl ErrRange"
  by code_simp

theorem malformed_number_fails_witness:
  "protoLine ''foo bar'' [] = Inl (ParseError ErrSyntax)
   \<and> (\<exists>p. loadProtocols ''tcp 6\<newline>foo bar\<newline>udp 17'' [] = Inl p)
   \<and> (\<exists>p. init (\<lambda>path. Some ''tcp 6\<newline>foo bar\<newline>udp 17'') = Inl p)
   \<and> servLine ''http 99999999999/tcp'' [] = Inl (ParseError ErrRange)
   \<and> (\<exists>p. loadServices ''http 99999999999/tcp'' [] = Inl p)"
  using
    malformed_number_fails
      [of "''foo bar''" "''tcp 6\<newline>foo bar\<newline>udp 17''" "[''foo'', ''bar'']" ErrSyntax "[]"
        "\<lambda>path. Some ''tcp 6\<newline>foo bar\<newline>udp 17''"]
    malformed_number_fails
      [of "''http 99999999999/tcp''" "''http 99999999999/tcp''"
        "[''http'', ''99999999999/tcp'']" ErrRange _ _ "[]"]
  by (simp add: lineFields_foo_bar Split_foo_bar ParseInt_bar lineFields_http Split_http
      ParseInt_big)

text \<open>
  C2. Loading is all or nothing. A panic leaves the program with no tables at all:
  when the load of the protocols (of the services) panics, some line of the text
  panics, and \<open>init\<close> panics. The records of the lines before that line were
  appended to the variable, but the panic ends the program inside \<open>init\<close>, so no
  query ever runs on them. When the load returns, no line has panicked and the
  table holds the records of all lines of the text, in their order. And \<open>init\<close>
  returns tables only when both texts were read and loaded to the end.
\<close>

theorem load_all_or_nothing:
  "(loadProtocols data [] = Inl p
      \<longrightarrow> (\<exists>line\<in>set (Split data (CHR ''\<newline>'')). protoLine line [] = Inl p)
        \<and> (fs ''/etc/protocols'' = Some data \<longrightarrow> init fs = Inl p))
   \<and> (loadProtocols data [] = Inr protocols
      \<longrightarrow> (\<forall>line\<in>set (Split data (CHR ''\<newline>'')). \<exists>rs. protoLine line [] = Inr rs)
        \<and> protocols = concat (map (\<lambda>line. projr (protoLine line [])) (Split data (CHR ''\<newline>''))))
   \<and> (loadServices data' [] = Inl p'
      \<longrightarrow> (\<exists>line\<in>set (Split data' (CHR ''\<newline>'')). servLine line [] = Inl p')
        \<and> (fs ''/etc/services'' = Some data' \<longrightarrow> (\<exists>q. init fs = Inl q)))
   \<and> (loadServices data' [] = Inr services
      \<longrightarrow> (\<forall>line\<in>set (Split data' (CHR ''\<newline>'')). \<exists>rs. servLine line [] = Inr rs)
        \<and> services = concat (map (\<lambda>line. projr (servLine line [])) (Split data' (CHR ''\<newline>''))))
   \<and> (init fs = Inr db
      \<longrightarrow> (\<exists>d d'. fs ''/etc/protocols'' = Some d \<and> fs ''/etc/services'' = Some d'
            \<and> loadProtocols d [] = Inr (Protocols db) \<and> loadServices d' [] = Inr (Services db)))"
proof (intro conjI impI)
  assume "loadProtocols data [] = Inl p"
  then show "\<exists>line\<in>set (Split data (CHR ''\<newline>'')). protoLine line [] = Inl p"
    unfolding loadProtocols_def by (rule protoLoop_Inl)
next
  assume "loadProtocols data [] = Inl p" and "fs ''/etc/protocols'' = Some data"
  then show "init fs = Inl p" by (simp add: init_protocols_fail)
next
  assume "loadProtocols data [] = Inr protocols"
  then show "\<forall>line\<in>set (Split data (CHR ''\<newline>'')). \<exists>rs. protoLine line [] = Inr rs"
    unfolding loadProtocols_def protoLoop_Inr_iff by simp
next
  assume "loadProtocols data [] = Inr protocols"
  then show "protocols = concat (map (\<lambda>line. projr (protoLine line [])) (Split data (CHR ''\<newline>'')))"
    unfolding loadProtocols_def protoLoop_Inr_iff by simp
next
  assume "loadServices data' [] = Inl p'"
  then show "\<exists>line\<in>set (Split data' (CHR ''\<newline>'')). servLine line [] = Inl p'"
    unfolding loadServices_def by (rule servLoop_Inl)
next
  assume "loadServices data' [] = Inl p'" and "fs ''/etc/services'' = Some data'"
  then show "\<exists>q. init fs = Inl q" by (simp add: init_services_fail)
next
  assume "loadServices data' [] = Inr services"
  then show "\<forall>line\<in>set (Split data' (CHR ''\<newline>'')). \<exists>rs. servLine line [] = Inr rs"
    unfolding loadServices_def servLoop_Inr_iff by simp
next
  assume "loadServices data' [] = Inr services"
  then show "services = concat (map (\<lambda>line. projr (servLine line [])) (Split data' (CHR ''\<newline>'')))"
    unfolding loadServices_def servLoop_Inr_iff by simp
next
  assume "init fs = Inr db"
  then show "\<exists>d d'. fs ''/etc/protocols'' = Some d \<and> fs ''/etc/services'' = Some d'
            \<and> loadProtocols d [] = Inr (Protocols db) \<and> loadServices d' [] = Inr (Services db)"
    by (rule init_Inr)
qed

lemma load_foo_bar: "loadProtocols ''tcp 6\<newline>foo bar\<newline>udp 17'' [] = Inl (ParseError ErrSyntax)"
  by code_simp

lemma load_tcp: "loadProtocols ''tcp 6'' [] = Inr [\<lparr>Protoent.Name = ''tcp'', Protoent.Aliases = [], Number = 6\<rparr>]"
  by code_simp

lemma load_smtp: "loadServices ''http 80/tcp\<newline>smtp 25\<newline>'' [] = Inl IndexOutOfRange"
  by code_simp

theorem load_all_or_nothing_witness:
  "loadProtocols ''tcp 6'' [] = Inr [\<lparr>Protoent.Name = ''tcp'', Protoent.Aliases = [], Number = 6\<rparr>]
   \<and> loadProtocols ''tcp 6\<newline>foo bar\<newline>udp 17'' [] = Inl (ParseError ErrSyntax)
   \<and> init (\<lambda>path. if path = ''/etc/protocols'' then Some ''tcp 6\<newline>foo bar\<newline>udp 17''
                   else Some ''http 80/tcp'') = Inl (ParseError ErrSyntax)
   \<and> (\<exists>q. init (\<lambda>path. if path = ''/etc/protocols'' then Some ''tcp 6''
                   else Some ''http 80/tcp\<newline>smtp 25\<newline>'') = Inl q)"
  using
    load_all_or_nothing
      [of "''tcp 6\<newline>foo bar\<newline>udp 17''" "ParseError ErrSyntax"
        "\<lambda>path. if path = ''/etc/protocols'' then Some ''tcp 6\<newline>foo bar\<newline>udp 17''
                   else Some ''http 80/tcp''"]
    load_all_or_nothing
      [of _ _ "\<lambda>path. if path = ''/etc/protocols'' then Some ''tcp 6''
                   else Some ''http 80/tcp\<newline>smtp 25\<newline>''" _
        "''http 80/tcp\<newline>smtp 25\<newline>''" IndexOutOfRange]
  by (simp add: load_foo_bar load_tcp load_smtp)

section \<open>Lines that load\<close>

subsection \<open>A single line\<close>

lemma loadProtocols_one_line:
  "CHR ''\<newline>'' \<notin> set line \<Longrightarrow> loadProtocols line P = protoLine line P"
  by (simp add: loadProtocols_def Split_no_sep split: sum.split)

lemma protoLine_Nil: "protoLine [] P = Inr P"
  by (simp add: protoLine_skip [OF lineFields_Nil])

lemma servLine_Nil: "servLine [] S = Inr S"
  by (simp add: servLine_skip [OF lineFields_Nil])

lemma loadProtocols_one_line_nl:
  "CHR ''\<newline>'' \<notin> set line \<Longrightarrow> loadProtocols (line @ [CHR ''\<newline>'']) P = protoLine line P"
  using Split_sep [of "CHR ''\<newline>''" line "[]"]
  by (simp add: loadProtocols_def Split_no_sep protoLine_Nil split: sum.split)

lemma ws_all_space:
  "list_all (\<lambda>q. CHR '' '' \<notin> set (tl q) \<and> \<not> isDigit (hd q) \<and> hd q \<noteq> CHR ''+'' \<and> hd q \<noteq> CHR ''-'')
     whiteSpace"
  by code_simp

lemma space_lead: "\<forall>q\<in>set whiteSpace. hd (CHR '' '' # t) \<notin> set (tl q)"
  using ws_all_space unfolding list_all_iff by simp

lemma whiteSpace_space: "[CHR '' ''] \<in> set whiteSpace"
  by (simp add: whiteSpace_def)

lemma whiteSpace_LF: "[CHR ''\<newline>''] \<in> set whiteSpace"
  by (simp add: whiteSpace_def)

lemma spaceWidth_hd:
  assumes "\<forall>q\<in>set whiteSpace. hd q \<noteq> c"
  shows "spaceWidth (c # cs) = 0"
proof -
  have "\<not> prefix p (c # cs)" if "p \<in> set whiteSpace" for p
  proof -
    from that have "p \<noteq> []" by (rule whiteSpace_nonempty)
    moreover from that assms have "hd p \<noteq> c" by blast
    ultimately show ?thesis by (cases p) simp_all
  qed
  then show ?thesis using spaceWidth_cases [of "c # cs"] by auto
qed

lemma spaceWidth_digit_sign:
  assumes "isDigit c \<or> c = CHR ''+'' \<or> c = CHR ''-''"
  shows "spaceWidth (c # cs) = 0"
proof (rule spaceWidth_hd)
  show "\<forall>q\<in>set whiteSpace. hd q \<noteq> c"
    using ws_all_space assms unfolding list_all_iff by blast
qed

lemma suffixes_hd: "x \<in> set (suffixes w) \<Longrightarrow> x \<noteq> [] \<Longrightarrow> hd x \<in> set w"
  by (induction w) auto

lemma in_set_suffix: "c \<in> set w \<Longrightarrow> \<exists>cs. c # cs \<in> set (suffixes w)"
  by (induction w) auto

lemma spaceWidth_LF: "spaceWidth (CHR ''\<newline>'' # cs) = 1"
  using spaceWidth_whiteSpace [OF whiteSpace_LF, of cs] by simp

lemma isWord_suffixes: "isWord w \<Longrightarrow> x \<in> set (suffixes w) \<Longrightarrow> x \<noteq> [] \<Longrightarrow> spaceWidth x = 0"
  unfolding isWord_def by blast

lemma isWord_no_LF:
  assumes "isWord w"
  shows "CHR ''\<newline>'' \<notin> set w"
proof
  assume "CHR ''\<newline>'' \<in> set w"
  then have "\<exists>cs. CHR ''\<newline>'' # cs \<in> set (suffixes w)" by (rule in_set_suffix)
  then obtain cs where "CHR ''\<newline>'' # cs \<in> set (suffixes w)" ..
  then have "spaceWidth (CHR ''\<newline>'' # cs) = 0"
    by (rule isWord_suffixes [OF assms]) simp
  then show False by (simp add: spaceWidth_LF)
qed

lemma ParseInt_chars:
  assumes "ParseInt s = Inr v"
  shows "s \<noteq> [] \<and> (\<forall>c\<in>set s. isDigit c \<or> c = CHR ''+'' \<or> c = CHR ''-'')"
proof -
  from assms obtain ds where ds: "ds \<noteq> []" "\<forall>c\<in>set ds. isDigit c"
    and s: "s = ds \<or> s = CHR ''+'' # ds \<or> s = CHR ''-'' # ds"
    unfolding ParseInt_Inr_iff by blast
  from s ds show ?thesis by auto
qed

lemma hash_not_digit: "\<not> isDigit (CHR ''#'')"
  by (simp add: isDigit_def)

lemma ParseInt_isWord:
  assumes "ParseInt s = Inr v"
  shows "isWord s"
proof -
  from assms have ne: "s \<noteq> []" and ch: "\<forall>c\<in>set s. isDigit c \<or> c = CHR ''+'' \<or> c = CHR ''-''"
    using ParseInt_chars by blast+
  from ch have "CHR ''#'' \<notin> set s" using hash_not_digit by auto
  moreover have "spaceWidth x = 0" if "x \<in> set (suffixes s)" "x \<noteq> []" for x
  proof -
    from that have "hd x \<in> set s" by (rule suffixes_hd)
    with ch have "isDigit (hd x) \<or> hd x = CHR ''+'' \<or> hd x = CHR ''-''" by blast
    then have "spaceWidth (hd x # tl x) = 0" by (rule spaceWidth_digit_sign)
    with that(2) show ?thesis by simp
  qed
  ultimately show ?thesis using ne by (simp add: isWord_def)
qed

lemma fieldsScan_word:
  assumes "\<forall>x\<in>set (suffixes w). x \<noteq> [] \<longrightarrow> spaceWidth x = 0"
    and "t = [] \<or> hd t = CHR '' ''"
  shows "fieldsScan (w @ t) cur =
    fieldsScan t (if w = [] then cur else Some ((case cur of None \<Rightarrow> [] | Some f \<Rightarrow> f) @ w))"
  using assms(1)
proof (induction w arbitrary: cur)
  case Nil
  then show ?case by simp
next
  case (Cons c cs)
  have lead: "t = [] \<or> (\<forall>q\<in>set whiteSpace. hd t \<notin> set (tl q))"
    using assms(2) space_lead [of "tl t"] by (cases t) auto
  have "spaceWidth ((c # cs) @ t) = spaceWidth (c # cs)"
    by (rule spaceWidth_append_lead) (use lead in simp_all)
  also have "\<dots> = 0" using Cons.prems by simp
  finally have w: "spaceWidth (c # cs @ t) = 0" by simp
  from Cons.prems have "\<forall>x\<in>set (suffixes cs). x \<noteq> [] \<longrightarrow> spaceWidth x = 0" by simp
  from Cons.IH [OF this] w show ?case by (simp split: option.split)
qed

lemma Fields_Join:
  "\<forall>w\<in>set ws. isWord w \<Longrightarrow> Fields (Join ws [CHR '' '']) = ws"
proof (induction ws "[CHR '' '']" rule: Join.induct)
  case 1
  then show ?case by (simp add: Fields_def)
next
  case (2 w)
  then have "fieldsScan (w @ []) None = fieldsScan [] (Some w)"
    by (subst fieldsScan_word) (auto simp: isWord_def)
  then show ?case by (simp add: Fields_def)
next
  case (3 w v ws)
  from 3(2) have w: "w \<noteq> []" "\<forall>x\<in>set (suffixes w). x \<noteq> [] \<longrightarrow> spaceWidth x = 0"
    by (auto simp: isWord_def)
  have sp: "spaceWidth ([CHR '' ''] @ Join (v # ws) [CHR '' '']) = length [CHR '' '']"
    by (rule spaceWidth_whiteSpace) (rule whiteSpace_space)
  have "fieldsScan (w @ CHR '' '' # Join (v # ws) [CHR '' '']) None
      = fieldsScan (CHR '' '' # Join (v # ws) [CHR '' '']) (Some w)"
    using w by (subst fieldsScan_word) auto
  also have "\<dots> = w # fieldsScan (Join (v # ws) [CHR '' '']) None"
    using sp by simp
  finally show ?case using 3 by (simp add: Fields_def)
qed

lemma set_Join: "set (Join ws [CHR '' '']) \<subseteq> insert (CHR '' '') (\<Union>w\<in>set ws. set w)"
  by (induction ws "[CHR '' '']" rule: Join.induct) auto

lemma TrimLeft_Join:
  assumes "\<forall>w\<in>set ws. isWord w"
  shows "TrimLeft (Join ws [CHR '' '']) = Join ws [CHR '' '']"
proof (cases ws)
  case Nil
  then show ?thesis by simp
next
  case (Cons w vs)
  with assms have w: "w \<noteq> []" "spaceWidth w = 0" by (auto simp: isWord_def)
  obtain t where J: "Join ws [CHR '' ''] = w @ t" and t: "t = [] \<or> hd t = CHR '' ''"
    using Cons by (cases vs) auto
  have lead: "t = [] \<or> (\<forall>q\<in>set whiteSpace. hd t \<notin> set (tl q))"
    using t space_lead [of "tl t"] by (cases t) auto
  have "spaceWidth (w @ t) = spaceWidth w"
    by (rule spaceWidth_append_lead) (use w lead in simp_all)
  with w J show ?thesis by (cases "w @ t") auto
qed

lemma lineFields_Join:
  assumes "\<forall>w\<in>set ws. isWord w"
  shows "lineFields (Join ws [CHR '' '']) = Inr ws"
proof -
  from assms have "CHR ''#'' \<notin> set (Join ws [CHR '' ''])"
    using set_Join [of ws] by (auto simp: isWord_def)
  then have 1: "takeWhile (\<lambda>c. c \<noteq> CHR ''#'') (Join ws [CHR '' '']) = Join ws [CHR '' '']"
    by (auto simp: takeWhile_eq_all_conv)
  show ?thesis
    unfolding lineFields_eq TrimSpace_def takeWhile_TrimRight TrimLeft_Join [OF assms] 1
      Fields_Join [OF assms] ..
qed

lemma Join_no_LF:
  assumes "\<forall>w\<in>set ws. isWord w"
  shows "CHR ''\<newline>'' \<notin> set (Join ws [CHR '' ''])"
proof
  assume "CHR ''\<newline>'' \<in> set (Join ws [CHR '' ''])"
  with set_Join [of ws] obtain w where "w \<in> set ws" "CHR ''\<newline>'' \<in> set w" by auto
  with assms isWord_no_LF show False by blast
qed

lemma single_line_loads:
  assumes "CHR ''\<newline>'' \<notin> set line"
    and "lineFields line = Inr flds"
    and "2 \<le> length flds"
    and "ParseInt (flds ! 1) = Inr num"
  shows "loadProtocols line [] =
      Inr [\<lparr>Protoent.Name = flds ! 0, Protoent.Aliases = drop 2 flds, Number = num\<rparr>]
    \<and> loadProtocols (line @ [CHR ''\<newline>'']) [] =
      Inr [\<lparr>Protoent.Name = flds ! 0, Protoent.Aliases = drop 2 flds, Number = num\<rparr>]"
  using assms by (simp add: loadProtocols_one_line loadProtocols_one_line_nl protoLine_ok)

lemma joined_line_loads:
  assumes "isWord name" and "\<forall>a\<in>set aliases. isWord a" and "ParseInt numstr = Inr num"
  shows "loadProtocols (Join (name # numstr # aliases) [CHR '' '']) [] =
      Inr [\<lparr>Protoent.Name = name, Protoent.Aliases = aliases, Number = num\<rparr>]
    \<and> loadProtocols (Join (name # numstr # aliases) [CHR '' ''] @ [CHR ''\<newline>'']) [] =
      Inr [\<lparr>Protoent.Name = name, Protoent.Aliases = aliases, Number = num\<rparr>]"
proof -
  from assms have w: "\<forall>w\<in>set (name # numstr # aliases). isWord w"
    using ParseInt_isWord by auto
  have 1: "CHR ''\<newline>'' \<notin> set (Join (name # numstr # aliases) [CHR '' ''])"
    using w by (rule Join_no_LF)
  have 2: "lineFields (Join (name # numstr # aliases) [CHR '' '']) = Inr (name # numstr # aliases)"
    using w by (rule lineFields_Join)
  have 3: "2 \<le> length (name # numstr # aliases)" by simp
  have 4: "ParseInt ((name # numstr # aliases) ! 1) = Inr num" using assms(3) by simp
  from single_line_loads [OF 1 2 3 4] show ?thesis by simp
qed

text \<open>
  C7. A text that is one valid protocols line, with or without a line feed after it,
  loads to the table of one record, whose name is the first field, whose aliases are
  the fields from the third on, and whose number is the number \<open>num\<close> that the
  second field parses to; \<open>GetProtoByNumber\<close> returns that record for \<open>num\<close>.
  This is stated twice: for any line (without a line feed) by the fields that \<open>init\<close>
  finds in it, and for the line written from a name, a number and aliases, which
  are then the name, the number and the aliases of the record.
\<close>

theorem single_protocol_line:
  "(CHR ''\<newline>'' \<notin> set line \<and> lineFields line = Inr flds \<and> 2 \<le> length flds
      \<and> ParseInt (flds ! 1) = Inr num
    \<longrightarrow> loadProtocols line [] =
          Inr [\<lparr>Protoent.Name = flds ! 0, Protoent.Aliases = drop 2 flds, Number = num\<rparr>]
        \<and> loadProtocols (line @ [CHR ''\<newline>'']) [] =
          Inr [\<lparr>Protoent.Name = flds ! 0, Protoent.Aliases = drop 2 flds, Number = num\<rparr>]
        \<and> GetProtoByNumber
            [\<lparr>Protoent.Name = flds ! 0, Protoent.Aliases = drop 2 flds, Number = num\<rparr>] num =
          (\<lparr>Protoent.Name = flds ! 0, Protoent.Aliases = drop 2 flds, Number = num\<rparr>, True))
   \<and> (isWord name \<and> (\<forall>a\<in>set aliases. isWord a) \<and> ParseInt numstr = Inr num
    \<longrightarrow> loadProtocols (Join (name # numstr # aliases) [CHR '' '']) [] =
          Inr [\<lparr>Protoent.Name = name, Protoent.Aliases = aliases, Number = num\<rparr>]
        \<and> loadProtocols (Join (name # numstr # aliases) [CHR '' ''] @ [CHR ''\<newline>'']) [] =
          Inr [\<lparr>Protoent.Name = name, Protoent.Aliases = aliases, Number = num\<rparr>]
        \<and> GetProtoByNumber
            [\<lparr>Protoent.Name = name, Protoent.Aliases = aliases, Number = num\<rparr>] num =
          (\<lparr>Protoent.Name = name, Protoent.Aliases = aliases, Number = num\<rparr>, True))"
  using single_line_loads [of line flds num] joined_line_loads [of name aliases numstr num]
  by simp

lemma ParseInt_6: "ParseInt ''6'' = Inr 6"
  by code_simp

lemma lineFields_tcp_comment:
  "lineFields ''  tcp   6 TCP T # comment'' = Inr [''tcp'', ''6'', ''TCP'', ''T'']"
  by code_simp

lemma isWord_tcp: "isWord ''tcp'' \<and> isWord ''TCP'' \<and> isWord ''T''"
  by code_simp

theorem single_protocol_line_witness:
  "loadProtocols ''tcp 6 TCP T'' [] =
      Inr [\<lparr>Protoent.Name = ''tcp'', Protoent.Aliases = [''TCP'', ''T''], Number = 6\<rparr>]
   \<and> loadProtocols ''tcp 6 TCP T\<newline>'' [] =
      Inr [\<lparr>Protoent.Name = ''tcp'', Protoent.Aliases = [''TCP'', ''T''], Number = 6\<rparr>]
   \<and> GetProtoByNumber
        [\<lparr>Protoent.Name = ''tcp'', Protoent.Aliases = [''TCP'', ''T''], Number = 6\<rparr>] 6 =
      (\<lparr>Protoent.Name = ''tcp'', Protoent.Aliases = [''TCP'', ''T''], Number = 6\<rparr>, True)
   \<and> lineFields ''  tcp   6 TCP T # comment'' = Inr [''tcp'', ''6'', ''TCP'', ''T'']
   \<and> loadProtocols ''  tcp   6 TCP T # comment'' [] =
      Inr [\<lparr>Protoent.Name = ''tcp'', Protoent.Aliases = [''TCP'', ''T''], Number = 6\<rparr>]"
proof -
  have a: "isWord ''tcp'' \<and> (\<forall>a\<in>set [''TCP'', ''T'']. isWord a) \<and> ParseInt ''6'' = Inr 6"
    using isWord_tcp by (simp add: ParseInt_6)
  have b: "CHR ''\<newline>'' \<notin> set ''  tcp   6 TCP T # comment''
      \<and> lineFields ''  tcp   6 TCP T # comment'' = Inr [''tcp'', ''6'', ''TCP'', ''T'']
      \<and> 2 \<le> length [''tcp'', ''6'', ''TCP'', ''T'']
      \<and> ParseInt ([''tcp'', ''6'', ''TCP'', ''T''] ! 1) = Inr 6"
    by (simp add: lineFields_tcp_comment ParseInt_6)
  from single_protocol_line
    [of "''  tcp   6 TCP T # comment''" "[''tcp'', ''6'', ''TCP'', ''T'']" 6
      "''tcp''" "[''TCP'', ''T'']" "''6''"] a b
  show ?thesis by simp
qed

subsection \<open>Comments and blank lines\<close>

lemma protoLine_comment: "protoLine (a @ CHR ''#'' # c) P = protoLine a P"
  by (simp add: protoLine_def lineFields_comment)

lemma servLine_comment: "servLine (a @ CHR ''#'' # c) S = servLine a S"
  by (simp add: servLine_def lineFields_comment)

lemma load_foo_comment:
  "loadProtocols ''foo 6 bar # trailing comment'' [] =
    Inr [\<lparr>Protoent.Name = ''foo'', Protoent.Aliases = [''bar''], Number = 6\<rparr>]"
  by code_simp

lemma load_foo:
  "loadProtocols ''foo 6 bar'' [] =
    Inr [\<lparr>Protoent.Name = ''foo'', Protoent.Aliases = [''bar''], Number = 6\<rparr>]"
  by code_simp

text \<open>
  C8. The fields of a line are the fields of the trimmed line up to its first \<open>#\<close>.
  So whatever follows a \<open>#\<close> changes nothing: a line \<open>a # c\<close> has the fields of \<open>a\<close>, and
  both loops treat the two alike; \<open>foo 6 bar # trailing comment\<close> loads to the
  record of \<open>foo 6 bar\<close>. A line that is white space only, or white space and
  then a comment, has no fields and is skipped by both loops.
\<close>

theorem comment_stripping:
  "lineFields line = Inr (Fields (takeWhile (\<lambda>c. c \<noteq> CHR ''#'') (TrimSpace line)))
   \<and> lineFields (a @ CHR ''#'' # c) = lineFields a
   \<and> protoLine (a @ CHR ''#'' # c) protocols = protoLine a protocols
   \<and> servLine (a @ CHR ''#'' # c) services = servLine a services
   \<and> loadProtocols ''foo 6 bar # trailing comment'' [] = loadProtocols ''foo 6 bar'' []
   \<and> loadProtocols ''foo 6 bar'' [] =
       Inr [\<lparr>Protoent.Name = ''foo'', Protoent.Aliases = [''bar''], Number = 6\<rparr>]
   \<and> (set ws \<subseteq> set whiteSpace
      \<longrightarrow> lineFields (concat ws) = Inr [] \<and> lineFields (concat ws @ CHR ''#'' # c) = Inr []
        \<and> protoLine (concat ws) protocols = Inr protocols
        \<and> protoLine (concat ws @ CHR ''#'' # c) protocols = Inr protocols
        \<and> servLine (concat ws) services = Inr services
        \<and> servLine (concat ws @ CHR ''#'' # c) services = Inr services)"
proof (intro conjI impI)
  show "lineFields line = Inr (Fields (takeWhile (\<lambda>c. c \<noteq> CHR ''#'') (TrimSpace line)))"
    by (rule lineFields_eq)
  show "lineFields (a @ CHR ''#'' # c) = lineFields a"
    by (rule lineFields_comment)
  show "protoLine (a @ CHR ''#'' # c) protocols = protoLine a protocols"
    by (rule protoLine_comment)
  show "servLine (a @ CHR ''#'' # c) services = servLine a services"
    by (rule servLine_comment)
  show "loadProtocols ''foo 6 bar # trailing comment'' [] = loadProtocols ''foo 6 bar'' []"
    by (simp only: load_foo_comment load_foo)
  show "loadProtocols ''foo 6 bar'' [] =
       Inr [\<lparr>Protoent.Name = ''foo'', Protoent.Aliases = [''bar''], Number = 6\<rparr>]"
    by (rule load_foo)
next
  assume ws: "set ws \<subseteq> set whiteSpace"
  then show b: "lineFields (concat ws) = Inr []" by (rule lineFields_blank)
  from ws show c: "lineFields (concat ws @ CHR ''#'' # c) = Inr []"
    by (rule lineFields_comment_only)
  from b show "protoLine (concat ws) protocols = Inr protocols"
    by (simp add: protoLine_skip)
  from c show "protoLine (concat ws @ CHR ''#'' # c) protocols = Inr protocols"
    by (simp add: protoLine_skip)
  from b show "servLine (concat ws) services = Inr services"
    by (simp add: servLine_skip)
  from c show "servLine (concat ws @ CHR ''#'' # c) services = Inr services"
    by (simp add: servLine_skip)
qed

theorem comment_stripping_witness:
  "lineFields '' \<newline> '' = Inr [] \<and> lineFields ''  # tcp 6'' = Inr []
   \<and> protoLine ''  # tcp 6'' [] = Inr []
   \<and> servLine ''  # tcp 6'' [] = Inr []"
proof -
  have ws: "set [[CHR 0x20], [CHR 0x20]] \<subseteq> set whiteSpace"
    by (simp add: whiteSpace_def)
  have ws': "set [[CHR 0x20], [CHR 0x0A], [CHR 0x20]] \<subseteq> set whiteSpace"
    by (simp add: whiteSpace_def)
  have "lineFields (concat [[CHR 0x20], [CHR 0x20]] @ CHR ''#'' # '' tcp 6'') = Inr []
      \<and> protoLine (concat [[CHR 0x20], [CHR 0x20]] @ CHR ''#'' # '' tcp 6'') [] = Inr []
      \<and> servLine (concat [[CHR 0x20], [CHR 0x20]] @ CHR ''#'' # '' tcp 6'') [] = Inr []"
    using comment_stripping [of "[]" "[]" "'' tcp 6''" "[]" "[]" "[[CHR 0x20], [CHR 0x20]]"] ws
    by blast
  moreover have "lineFields (concat [[CHR 0x20], [CHR 0x0A], [CHR 0x20]]) = Inr []"
    using comment_stripping [of "[]" "[]" "[]" "[]" "[]" "[[CHR 0x20], [CHR 0x0A], [CHR 0x20]]"] ws'
    by blast
  ultimately show ?thesis by simp
qed

subsection \<open>Line endings\<close>

lemma toCRLF_append: "toCRLF (a @ b) = toCRLF a @ toCRLF b"
  by (simp add: toCRLF_def)

lemma toCRLF_Cons:
  "toCRLF (c # s) = (if c = CHR ''\<newline>'' then [CHR 0x0D, CHR ''\<newline>''] else [c]) @ toCRLF s"
  by (simp add: toCRLF_def)

lemma toCRLF_no_nl: "CHR ''\<newline>'' \<notin> set s \<Longrightarrow> toCRLF s = s"
  by (induction s) (auto simp: toCRLF_def)

lemma toCRLF_nl:
  "CHR ''\<newline>'' \<notin> set a \<Longrightarrow>
    toCRLF (a @ CHR ''\<newline>'' # b) = (a @ [CHR 0x0D]) @ CHR ''\<newline>'' # toCRLF b"
  using toCRLF_no_nl [of a] by (simp add: toCRLF_append) (simp add: toCRLF_def)

lemma protoLine_CR: "protoLine (a @ [CHR 0x0D]) P = protoLine a P"
  by (simp add: protoLine_def lineFields_CR)

lemma servLine_CR: "servLine (a @ [CHR 0x0D]) S = servLine a S"
  by (simp add: servLine_def lineFields_CR)

lemma Split_toCRLF_nl:
  assumes "CHR ''\<newline>'' \<notin> set a"
  shows "Split (toCRLF (a @ CHR ''\<newline>'' # b)) (CHR ''\<newline>'')
    = (a @ [CHR 0x0D]) # Split (toCRLF b) (CHR ''\<newline>'')"
proof -
  from assms have "CHR ''\<newline>'' \<notin> set (a @ [CHR 0x0D])" by simp
  then show ?thesis
    unfolding toCRLF_nl [OF assms] by (rule Split_sep)
qed

lemma protoLoop_toCRLF:
  "protoLoop (Split (toCRLF s) (CHR ''\<newline>'')) P = protoLoop (Split s (CHR ''\<newline>'')) P"
proof (induction s arbitrary: P rule: split_induct [where sep = "CHR ''\<newline>''"])
  case (none s)
  then show ?case by (simp add: toCRLF_no_nl)
next
  case (sep a b)
  then show ?case
    by (simp add: Split_toCRLF_nl Split_sep protoLine_CR split: sum.split)
qed

lemma servLoop_toCRLF:
  "servLoop (Split (toCRLF s) (CHR ''\<newline>'')) S = servLoop (Split s (CHR ''\<newline>'')) S"
proof (induction s arbitrary: S rule: split_induct [where sep = "CHR ''\<newline>''"])
  case (none s)
  then show ?case by (simp add: toCRLF_no_nl)
next
  case (sep a b)
  then show ?case
    by (simp add: Split_toCRLF_nl Split_sep servLine_CR split: sum.split)
qed

lemma loadProtocols_toCRLF: "loadProtocols (toCRLF data) P = loadProtocols data P"
  by (simp add: loadProtocols_def protoLoop_toCRLF)

lemma loadServices_toCRLF: "loadServices (toCRLF data) S = loadServices data S"
  by (simp add: loadServices_def servLoop_toCRLF)

lemma toCRLF_lines:
  "\<forall>l\<in>set ls. CHR ''\<newline>'' \<notin> set l \<Longrightarrow>
    toCRLF (concat (map (\<lambda>l. l @ [CHR ''\<newline>'']) ls))
      = concat (map (\<lambda>l. l @ [CHR 0x0D, CHR ''\<newline>'']) ls)"
proof (induction ls)
  case Nil
  then show ?case by (simp add: toCRLF_def)
next
  case (Cons l ls)
  then have "toCRLF l = l" by (simp add: toCRLF_no_nl)
  then show ?case using Cons by (simp add: toCRLF_append toCRLF_Cons)
qed

text \<open>
  C9. Carriage returns before the line feeds change nothing: a text and the same
  text with \<open>"\r\n"\<close> for every \<open>"\n"\<close> load to the same result (the same table or the
  same panic), for both tables and for \<open>init\<close>. In particular the lines \<open>ls\<close>, each
  terminated by \<open>"\r\n"\<close>, load as the same lines each terminated by \<open>"\n"\<close>.
\<close>

theorem load_ignores_carriage_return:
  "loadProtocols (toCRLF data) protocols = loadProtocols data protocols
   \<and> loadServices (toCRLF data) services = loadServices data services
   \<and> init (\<lambda>path. map_option toCRLF (fs path)) = init fs
   \<and> ((\<forall>l\<in>set ls. CHR ''\<newline>'' \<notin> set l)
      \<longrightarrow> loadProtocols (concat (map (\<lambda>l. l @ [CHR 0x0D, CHR ''\<newline>'']) ls)) protocols
            = loadProtocols (concat (map (\<lambda>l. l @ [CHR ''\<newline>'']) ls)) protocols
        \<and> loadServices (concat (map (\<lambda>l. l @ [CHR 0x0D, CHR ''\<newline>'']) ls)) services
            = loadServices (concat (map (\<lambda>l. l @ [CHR ''\<newline>'']) ls)) services)"
proof (intro conjI impI)
  show "loadProtocols (toCRLF data) protocols = loadProtocols data protocols"
    by (rule loadProtocols_toCRLF)
  show "loadServices (toCRLF data) services = loadServices data services"
    by (rule loadServices_toCRLF)
  show "init (\<lambda>path. map_option toCRLF (fs path)) = init fs"
    by (cases "fs ''/etc/protocols''"; cases "fs ''/etc/services''")
      (simp_all add: init_def ReadFile_def loadProtocols_toCRLF loadServices_toCRLF
        split: sum.split)
next
  assume ls: "\<forall>l\<in>set ls. CHR ''\<newline>'' \<notin> set l"
  show "loadProtocols (concat (map (\<lambda>l. l @ [CHR 0x0D, CHR ''\<newline>'']) ls)) protocols
      = loadProtocols (concat (map (\<lambda>l. l @ [CHR ''\<newline>'']) ls)) protocols"
    unfolding toCRLF_lines [OF ls, symmetric] by (rule loadProtocols_toCRLF)
  show "loadServices (concat (map (\<lambda>l. l @ [CHR 0x0D, CHR ''\<newline>'']) ls)) services
      = loadServices (concat (map (\<lambda>l. l @ [CHR ''\<newline>'']) ls)) services"
    unfolding toCRLF_lines [OF ls, symmetric] by (rule loadServices_toCRLF)
qed

lemma load_tcp_udp:
  "loadProtocols ''tcp 6 TCP\<newline>udp 17 UDP\<newline>'' [] =
    Inr [\<lparr>Protoent.Name = ''tcp'', Protoent.Aliases = [''TCP''], Number = 6\<rparr>,
         \<lparr>Protoent.Name = ''udp'', Protoent.Aliases = [''UDP''], Number = 17\<rparr>]"
  by code_simp

lemma load_http:
  "loadServices ''http 80/tcp www\<newline>'' [] =
    Inr [\<lparr>Servent.Name = ''http'', Servent.Aliases = [''www''], Port = 80, Protocol = ''tcp''\<rparr>]"
  by code_simp

theorem load_ignores_carriage_return_witness:
  "loadProtocols (''tcp 6 TCP'' @ [CHR 0x0D, CHR ''\<newline>''] @ ''udp 17 UDP'' @ [CHR 0x0D, CHR ''\<newline>'']) [] =
    Inr [\<lparr>Protoent.Name = ''tcp'', Protoent.Aliases = [''TCP''], Number = 6\<rparr>,
         \<lparr>Protoent.Name = ''udp'', Protoent.Aliases = [''UDP''], Number = 17\<rparr>]
   \<and> loadServices (''http 80/tcp www'' @ [CHR 0x0D, CHR ''\<newline>'']) [] =
    Inr [\<lparr>Servent.Name = ''http'', Servent.Aliases = [''www''], Port = 80, Protocol = ''tcp''\<rparr>]"
proof -
  have 1: "\<forall>l\<in>set [''tcp 6 TCP'', ''udp 17 UDP'']. CHR ''\<newline>'' \<notin> set l" by simp
  have 2: "\<forall>l\<in>set [''http 80/tcp www'']. CHR ''\<newline>'' \<notin> set l" by simp
  have "loadProtocols (concat (map (\<lambda>l. l @ [CHR 0x0D, CHR ''\<newline>'']) [''tcp 6 TCP'', ''udp 17 UDP''])) []
      = loadProtocols (concat (map (\<lambda>l. l @ [CHR ''\<newline>'']) [''tcp 6 TCP'', ''udp 17 UDP''])) []"
    using load_ignores_carriage_return [of "[]" "[]" "[]" "\<lambda>p. None" "[''tcp 6 TCP'', ''udp 17 UDP'']"] 1
    by blast
  moreover have "loadServices (concat (map (\<lambda>l. l @ [CHR 0x0D, CHR ''\<newline>'']) [''http 80/tcp www''])) []
      = loadServices (concat (map (\<lambda>l. l @ [CHR ''\<newline>'']) [''http 80/tcp www''])) []"
    using load_ignores_carriage_return [of "[]" "[]" "[]" "\<lambda>p. None" "[''http 80/tcp www'']"] 2
    by blast
  ultimately show ?thesis by (simp add: load_tcp_udp load_http)
qed

subsection \<open>Names and aliases are not empty\<close>

lemma protoLine_names:
  assumes "protoLine l [] = Inr rs" and "r \<in> set rs"
  shows "Protoent.Name r \<noteq> [] \<and> [] \<notin> set (Protoent.Aliases r)"
proof -
  obtain flds where f: "lineFields l = Inr flds"
    by (auto simp: lineFields_eq)
  then have ne: "[] \<notin> set flds" by (rule lineFields_nonempty)
  from assms f have len: "2 \<le> length flds"
    by (auto simp: protoLine_def split: if_splits)
  from assms f len obtain num where
    r: "r = \<lparr>Protoent.Name = flds ! 0, Protoent.Aliases = drop 2 flds, Number = num\<rparr>"
    by (auto simp: protoLine_def split: sum.splits)
  from len have "flds ! 0 \<in> set flds" by (cases flds) auto
  with ne have "flds ! 0 \<noteq> []" by metis
  moreover have "[] \<notin> set (drop 2 flds)"
    using ne set_drop_subset [of 2 flds] by blast
  ultimately show ?thesis using r by simp
qed

lemma servLine_names:
  assumes "servLine l [] = Inr rs" and "r \<in> set rs"
  shows "Servent.Name r \<noteq> [] \<and> [] \<notin> set (Servent.Aliases r)"
proof -
  obtain flds where f: "lineFields l = Inr flds"
    by (auto simp: lineFields_eq)
  then have ne: "[] \<notin> set flds" by (rule lineFields_nonempty)
  from assms f have len: "2 \<le> length flds"
    by (auto simp: servLine_def split: if_splits)
  from assms f len obtain port proto where
    r: "r = \<lparr>Servent.Name = flds ! 0, Servent.Aliases = drop 2 flds, Port = port, Protocol = proto\<rparr>"
    by (auto simp: servLine_def split: sum.splits list.splits)
  from len have "flds ! 0 \<in> set flds" by (cases flds) auto
  with ne have "flds ! 0 \<noteq> []" by metis
  moreover have "[] \<notin> set (drop 2 flds)"
    using ne set_drop_subset [of 2 flds] by blast
  ultimately show ?thesis using r by simp
qed

lemma loadProtocols_names:
  assumes "loadProtocols data [] = Inr protocols" and "r \<in> set protocols"
  shows "Protoent.Name r \<noteq> [] \<and> [] \<notin> set (Protoent.Aliases r)"
proof -
  from assms(1) have all: "\<forall>l\<in>set (Split data (CHR ''\<newline>'')). \<exists>rs. protoLine l [] = Inr rs"
    and tbl: "protocols = concat (map (\<lambda>l. projr (protoLine l [])) (Split data (CHR ''\<newline>'')))"
    unfolding loadProtocols_def protoLoop_Inr_iff by simp_all
  from assms(2) tbl obtain l where l: "l \<in> set (Split data (CHR ''\<newline>''))"
    and r: "r \<in> set (projr (protoLine l []))" by auto
  from all l obtain rs where "protoLine l [] = Inr rs" by blast
  with r show ?thesis using protoLine_names [of l rs r] by simp
qed

lemma loadServices_names:
  assumes "loadServices data [] = Inr services" and "r \<in> set services"
  shows "Servent.Name r \<noteq> [] \<and> [] \<notin> set (Servent.Aliases r)"
proof -
  from assms(1) have all: "\<forall>l\<in>set (Split data (CHR ''\<newline>'')). \<exists>rs. servLine l [] = Inr rs"
    and tbl: "services = concat (map (\<lambda>l. projr (servLine l [])) (Split data (CHR ''\<newline>'')))"
    unfolding loadServices_def servLoop_Inr_iff by simp_all
  from assms(2) tbl obtain l where l: "l \<in> set (Split data (CHR ''\<newline>''))"
    and r: "r \<in> set (projr (servLine l []))" by auto
  from all l obtain rs where "servLine l [] = Inr rs" by blast
  with r show ?thesis using servLine_names [of l rs r] by simp
qed

text \<open>
  C10. In a loaded table every record has a non-empty name and only non-empty
  aliases (they are fields of a line, and \<open>Fields\<close> returns no empty field). So the
  lookup of the empty name finds nothing, in the protocols and, with any protocol
  argument, in the services.
\<close>

theorem loaded_names_nonempty:
  "(loadProtocols data [] = Inr protocols
      \<longrightarrow> (\<forall>r\<in>set protocols. Protoent.Name r \<noteq> [] \<and> [] \<notin> set (Protoent.Aliases r))
        \<and> GetProtoByName protocols [] = (Protoent_zero, False))
   \<and> (loadServices data' [] = Inr services
      \<longrightarrow> (\<forall>r\<in>set services. Servent.Name r \<noteq> [] \<and> [] \<notin> set (Servent.Aliases r))
        \<and> GetServByName services [] protocol = (Servent_zero, False))
   \<and> (init fs = Inr db
      \<longrightarrow> GetProtoByName (Protocols db) [] = (Protoent_zero, False)
        \<and> GetServByName (Services db) [] protocol = (Servent_zero, False))"
proof -
  have P: "(\<forall>r\<in>set T. Protoent.Name r \<noteq> [] \<and> [] \<notin> set (Protoent.Aliases r))
      \<and> GetProtoByName T [] = (Protoent_zero, False)"
    if "loadProtocols d [] = Inr T" for d T
  proof -
    from that have n: "\<forall>r\<in>set T. Protoent.Name r \<noteq> [] \<and> [] \<notin> set (Protoent.Aliases r)"
      using loadProtocols_names by blast
    then have "find (\<lambda>r. Protoent.Name r = [] \<or> [] \<in> set (Protoent.Aliases r)) T = None"
      by (simp add: find_None_iff)
    with n show ?thesis by (simp add: GetProtoByName_find)
  qed
  have S: "(\<forall>r\<in>set T. Servent.Name r \<noteq> [] \<and> [] \<notin> set (Servent.Aliases r))
      \<and> GetServByName T [] protocol = (Servent_zero, False)"
    if "loadServices d [] = Inr T" for d T
  proof -
    from that have n: "\<forall>r\<in>set T. Servent.Name r \<noteq> [] \<and> [] \<notin> set (Servent.Aliases r)"
      using loadServices_names by blast
    then have "find (\<lambda>r. (protocol = [] \<or> Protocol r = protocol)
        \<and> (Servent.Name r = [] \<or> [] \<in> set (Servent.Aliases r))) T = None"
      by (simp add: find_None_iff)
    with n show ?thesis by (simp add: GetServByName_find)
  qed
  show ?thesis
  proof (intro conjI impI)
    assume a: "loadProtocols data [] = Inr protocols"
    from P [OF a] show "\<forall>r\<in>set protocols. Protoent.Name r \<noteq> [] \<and> [] \<notin> set (Protoent.Aliases r)"
      by simp
    from P [OF a] show "GetProtoByName protocols [] = (Protoent_zero, False)" by simp
  next
    assume a: "loadServices data' [] = Inr services"
    from S [OF a] show "\<forall>r\<in>set services. Servent.Name r \<noteq> [] \<and> [] \<notin> set (Servent.Aliases r)"
      by simp
    from S [OF a] show "GetServByName services [] protocol = (Servent_zero, False)" by simp
  next
    assume "init fs = Inr db"
    then obtain d d' where "loadProtocols d [] = Inr (Protocols db)"
      and "loadServices d' [] = Inr (Services db)"
      using init_Inr by blast
    then show "GetProtoByName (Protocols db) [] = (Protoent_zero, False)"
      and "GetServByName (Services db) [] protocol = (Servent_zero, False)"
      using P S by simp_all
  qed
qed

theorem loaded_names_nonempty_witness:
  "GetProtoByName
     [\<lparr>Protoent.Name = ''tcp'', Protoent.Aliases = [''TCP''], Number = 6\<rparr>,
      \<lparr>Protoent.Name = ''udp'', Protoent.Aliases = [''UDP''], Number = 17\<rparr>] [] = (Protoent_zero, False)
   \<and> GetServByName
     [\<lparr>Servent.Name = ''http'', Servent.Aliases = [''www''], Port = 80, Protocol = ''tcp''\<rparr>]
     [] ''tcp'' = (Servent_zero, False)"
  using loaded_names_nonempty
    [of "''tcp 6 TCP\<newline>udp 17 UDP\<newline>''"
      "[\<lparr>Protoent.Name = ''tcp'', Protoent.Aliases = [''TCP''], Number = 6\<rparr>,
        \<lparr>Protoent.Name = ''udp'', Protoent.Aliases = [''UDP''], Number = 17\<rparr>]"
      "''http 80/tcp www\<newline>''"
      "[\<lparr>Servent.Name = ''http'', Servent.Aliases = [''www''], Port = 80, Protocol = ''tcp''\<rparr>]"
      "''tcp''"]
    load_tcp_udp load_http
  by blast

end
